theory Spec2Isabelle
  imports Complex_Main "HOL-Library.Multiset"
begin

section \<open>The guild queue of src/struct/Queue.ts\<close>

text \<open>
  The class \<open>Queue\<close> is embedded as a record of its fields and one function per
  method. A method takes the queue and returns its outcome together with the queue as the
  method leaves it, on a \<open>throw\<close> too: the outcome is \<open>Inl\<close> of the error kind or
  \<open>Inr\<close> of the returned value. A method that returns \<open>this\<close> returns \<open>()\<close>, the
  queue being the second component. An array read that JavaScript answers with
  \<open>undefined\<close> is \<open>None\<close>.
\<close>

subsection \<open>Data\<close>

text \<open>
  The kinds of \<open>DisTubeError\<close> raised in Queue.ts, and \<open>TypeError\<close> for the
  runtime's own exception on reading a property of \<open>undefined\<close>.
\<close>

datatype error =
    QUEUE_STOPPED | INVALID_TYPE | PAUSED | RESUMED | NO_UP_NEXT | NO_PREVIOUS
  | NO_SONG_POSITION | DISABLED_OPTION | NO_PLAYING_SONG | NO_RELATED | NUMBER_COMPARE
  | TypeError

text \<open>
  The class \<open>Song\<close> is declared outside Queue.ts. Of a song the queue reads \<open>id\<close>,
  \<open>metadata\<close>, \<open>member\<close> and \<open>stream\<close> (with \<open>stream.playFromSource\<close> and
  \<open>stream.song\<close>). Metadata and members are opaque to the queue and stand as strings.
  Every property but \<open>id\<close> may be absent: \<open>jump\<close> builds objects that have an
  \<open>id\<close> only.
\<close>

datatype song =
  Song (song_id: string) (metadata: "string option") (member: "string option")
       (stream: "stream option")
and stream =
  Stream (playFromSource: bool) (stream_song: "song option")

text \<open>
  The calls the queue makes to its collaborators (task queue, voice connection, queue
  manager, plugin handler, logger), in the order the queue makes them.
\<close>

datatype call =
    TaskQueue_queuing | TaskQueue_resolve
  | Voice_pause | Voice_unpause | Voice_stop | Voice_off string
  | GetRelatedSong song | Debug
  | Queues_remove string | Emit_DELETE_QUEUE | Queues_playSong bool

text \<open>
  A JavaScript number as the methods receive it: \<open>NaN\<close> or a finite value (the two
  infinities are left out). The methods test \<open>typeof x !== "number"\<close> first; an
  argument of this type passes that test.
\<close>

datatype number = NaN | Num real

text \<open>
  Modelled from the spec: the declaration of the enum \<open>RepeatMode\<close> is not in
  Queue.ts; its three members have the ordinals DISABLED = 0, SONG = 1, QUEUE = 2, on
  which \<open>setRepeatMode\<close> and \<open>previous\<close> compute. Queue.ts uses the enum as an object
  (\<open>Object.values(RepeatMode)\<close>) and its members as numbers: it is a numeric enum of
  TypeScript, whose object maps each key to its ordinal and each ordinal back to its
  key. So the values of the object are the three keys, as strings, and the three
  ordinals.

  \<open>mode\<close> is what the field \<open>repeatMode\<close> can come to hold through the methods: a
  number or one of the keys. \<open>argument\<close> is what \<open>setRepeatMode\<close> can be given:
  \<open>undefined\<close>, a number, one of the keys, or a value of any other kind (another
  string, a boolean, an object, \<open>null\<close>), which is equal to no value of the enum
  object.
\<close>

datatype key = DISABLED_key | SONG_key | QUEUE_key

datatype mode = Number number | Key key

datatype argument = Undefined | Mode mode | Other

text \<open>
  The fields of the class that the methods below read or write, with \<open>q_\<close> for a
  leading underscore. The volume, the filters, the FFmpeg arguments and the text channel
  play no part in them. The task queue, the voice connection and the manager are
  collaborators: \<open>calls\<close> lists the calls made to them so far, the oldest first.
\<close>

record queue =
  queue_id :: string
  songs :: "song list"
  previousSongs :: "song list"
  stopped :: bool
  playing :: bool
  paused :: bool
  repeatMode :: mode
  autoplay :: bool
  q_beginTime :: real
  q_next :: bool
  q_prev :: bool
  q_listeners :: "string list option"
  calls :: "call list"

text \<open>
  What a queue reads from outside itself: the option \<open>savePreviousSongs\<close>, the client
  user as a guild member (\<open>clientMember\<close>, which may be \<open>undefined\<close>), and the answer of the private method
  \<open>#getRelatedSong\<close>, which is the plugin's list of related songs or the empty list
  when no plugin handles the song.
\<close>

record env =
  savePreviousSongs :: bool
  clientMember :: "string option"
  getRelatedSong :: "song \<Rightarrow> song list"

text \<open>The members of the enum, by their ordinals.\<close>

definition DISABLED :: mode where "DISABLED = Number (Num 0)"
definition SONG :: mode where "SONG = Number (Num 1)"
definition QUEUE :: mode where "QUEUE = Number (Num 2)"

text \<open>\<open>Object.values(RepeatMode)\<close>: the keys first, then the ordinals.\<close>

definition RepeatMode_values :: "mode list" where
  "RepeatMode_values = [Key DISABLED_key, Key SONG_key, Key QUEUE_key, DISABLED, SONG, QUEUE]"

datatype song_arg = One song | Many "song list"

subsection \<open>Calls, numbers and arrays\<close>

text \<open>Making a call appends it to the list of calls.\<close>

definition call :: "call \<Rightarrow> queue \<Rightarrow> queue" where
  "call c q = q\<lparr>calls := calls q @ [c]\<rparr>"

text \<open>\<open>xs[i]\<close>: \<open>undefined\<close> outside the array.\<close>

definition index :: "'a list \<Rightarrow> int \<Rightarrow> 'a option" where
  "index xs i = (if 0 \<le> i \<and> i < int (length xs) then Some (xs ! nat i) else None)"

text \<open>
  \<open>Number.isInteger\<close>, and the truncation towards zero that \<open>splice\<close> applies to
  its first argument.
\<close>

definition isInteger :: "number \<Rightarrow> bool" where
  "isInteger x = (case x of NaN \<Rightarrow> False | Num r \<Rightarrow> r \<in> \<int>)"

definition ToIntegerOrInfinity :: "real \<Rightarrow> int" where
  "ToIntegerOrInfinity r = (if r < 0 then \<lceil>r\<rceil> else \<lfloor>r\<rfloor>)"

text \<open>
  The start index that \<open>Array.prototype.splice\<close> computes from its first argument:
  a negative one counts from the end, and the result is clamped to the array.
\<close>

definition splice_start :: "real \<Rightarrow> 'a list \<Rightarrow> nat" where
  "splice_start start xs =
     (let relativeStart = ToIntegerOrInfinity start
      in if relativeStart < 0 then nat (max (int (length xs) + relativeStart) 0)
         else min (nat relativeStart) (length xs))"

text \<open>
  \<open>xs.splice(start)\<close> removes everything from the start index on: the first
  component is the array returned, the second the array left in \<open>xs\<close>.
\<close>

definition splice_from :: "real \<Rightarrow> 'a list \<Rightarrow> 'a list \<times> 'a list" where
  "splice_from start xs =
     (drop (splice_start start xs) xs, take (splice_start start xs) xs)"

text \<open>\<open>xs.splice(start, 0, ...items)\<close> removes nothing and inserts the items.\<close>

definition splice_insert :: "real \<Rightarrow> 'a list \<Rightarrow> 'a list \<Rightarrow> 'a list" where
  "splice_insert start items xs =
     take (splice_start start xs) xs @ items @ drop (splice_start start xs) xs"

subsection \<open>Methods\<close>

text \<open>
  \<open>addToQueue(song, position = 0)\<close>. A song argument is a song or an array of songs,
  so \<open>!song\<close> is false. The queue is the holder of \<open>songs\<close>: \<open>push\<close> and
  \<open>splice\<close> change the array in place.
\<close>

definition addToQueue :: "song_arg \<Rightarrow> number \<Rightarrow> queue \<Rightarrow> (error + unit) \<times> queue" where
  "addToQueue song position q =
     (if stopped q then (Inl QUEUE_STOPPED, q)
      else if (case song of Many ss \<Rightarrow> ss = [] | One s \<Rightarrow> False) then (Inl INVALID_TYPE, q)
      else if \<not> isInteger position then (Inl INVALID_TYPE, q)
      else
        (case position of
           NaN \<Rightarrow> (Inl INVALID_TYPE, q)
         | Num p \<Rightarrow>
             if p \<le> 0 then
               (case song of
                  Many ss \<Rightarrow> (Inr (), q\<lparr>songs := songs q @ ss\<rparr>)
                | One s \<Rightarrow> (Inr (), q\<lparr>songs := songs q @ [s]\<rparr>))
             else
               (case song of
                  Many ss \<Rightarrow> (Inr (), q\<lparr>songs := splice_insert p ss (songs q)\<rparr>)
                | One s \<Rightarrow> (Inr (), q\<lparr>songs := splice_insert p [s] (songs q)\<rparr>))))"

text \<open>
  The asynchronous methods have the shape
  \<open>await this._taskQueue.queuing(); try { ... } finally { this._taskQueue.resolve(); }\<close>:
  the call of \<open>queuing\<close> comes first, and the call of \<open>resolve\<close> follows the block
  however the block ends. A call of such a method runs at once as far as the
  \<open>await\<close>, that is through the call of \<open>queuing\<close>; the two blocks run when the
  promise of \<open>queuing\<close> has resolved. For a method whose blocks hold no \<open>await\<close> of
  their own, the function named \<open>_admitted\<close> is the two blocks, and the method is the
  call of \<open>queuing\<close> followed by them.
\<close>

definition pause_admitted :: "queue \<Rightarrow> (error + unit) \<times> queue" where
  "pause_admitted q =
     (let (r, q') =
            (if paused q then (Inl PAUSED, q)
             else (Inr (), call Voice_pause (q\<lparr>paused := True\<rparr>)))
      in (r, call TaskQueue_resolve q'))"

definition pause :: "queue \<Rightarrow> (error + unit) \<times> queue" where
  "pause q0 = pause_admitted (call TaskQueue_queuing q0)"

definition resume_admitted :: "queue \<Rightarrow> (error + unit) \<times> queue" where
  "resume_admitted q =
     (let (r, q') =
            (if \<not> paused q then (Inl RESUMED, q)
             else (Inr (), call Voice_unpause (q\<lparr>paused := False\<rparr>)))
      in (r, call TaskQueue_resolve q'))"

definition resume :: "queue \<Rightarrow> (error + unit) \<times> queue" where
  "resume q0 = resume_admitted (call TaskQueue_queuing q0)"

text \<open>
  The assignments \<open>song.metadata = ...\<close> and \<open>song.member = ...\<close> go through the
  setters of the class \<open>Song\<close>, which is declared outside Queue.ts. The setter of
  \<open>metadata\<close> stores what it is given. The setter of \<open>member\<close> stores a guild
  member only: given \<open>undefined\<close> it leaves the member of the song as it was.
\<close>

definition set_metadata :: "string option \<Rightarrow> song \<Rightarrow> song" where
  "set_metadata x s = Song (song_id s) x (member s) (stream s)"

definition set_member :: "string option \<Rightarrow> song \<Rightarrow> song" where
  "set_member x s =
     (case x of None \<Rightarrow> s | Some m \<Rightarrow> Song (song_id s) (metadata s) (Some m) (stream s))"

text \<open>
  The last steps of \<open>addRelatedSong\<close>: take the first candidate, set its
  \<open>metadata\<close> and \<open>member\<close>, and hand it to \<open>addToQueue\<close> with the default
  position.
\<close>

definition addRelatedSong_first ::
  "env \<Rightarrow> song \<Rightarrow> song list \<Rightarrow> queue \<Rightarrow> (error + song) \<times> queue" where
  "addRelatedSong_first e current relatedSongs q =
     (case relatedSongs of
        [] \<Rightarrow> (Inl NO_RELATED, q)
      | s # _ \<Rightarrow>
          (let song = set_member (clientMember e) (set_metadata (metadata current) s)
           in case addToQueue (One song) (Num 0) q of
                (Inl err, q') \<Rightarrow> (Inl err, q')
              | (Inr _, q') \<Rightarrow> (Inr song, q')))"

text \<open>
  The filter \<open>.filter(s => !prevIds.includes(s.id))\<close> that \<open>addRelatedSong\<close>
  applies to the answer of each lookup.
\<close>

definition unseen :: "string list \<Rightarrow> song list \<Rightarrow> song list" where
  "unseen prevIds ss = filter (\<lambda>s. song_id s \<notin> set prevIds) ss"

definition addRelatedSong :: "env \<Rightarrow> queue \<Rightarrow> (error + song) \<times> queue" where
  "addRelatedSong e q0 =
     (case songs q0 of
        [] \<Rightarrow> (Inl NO_PLAYING_SONG, q0)
      | current # _ \<Rightarrow>
          (let prevIds = map song_id (previousSongs q0);
               relatedSongs = unseen prevIds (getRelatedSong e current);
               q1 = call Debug (call (GetRelatedSong current) q0)
           in if relatedSongs = [] then
                (case stream current of
                   None \<Rightarrow> (Inl TypeError, q1)
                 | Some st \<Rightarrow>
                     if \<not> playFromSource st then
                       (case stream_song st of
                          None \<Rightarrow> addRelatedSong_first e current [] (call Debug q1)
                        | Some altSong \<Rightarrow>
                            addRelatedSong_first e current
                              (unseen prevIds (getRelatedSong e altSong))
                              (call Debug (call (GetRelatedSong altSong) q1)))
                     else addRelatedSong_first e current [] q1)
              else addRelatedSong_first e current relatedSongs q1))"

text \<open>The statements of \<open>skip\<close> after its test of the length.\<close>

definition skip_next :: "queue \<Rightarrow> (error + song option) \<times> queue" where
  "skip_next q = (Inr (index (songs q) 1), call Voice_stop (q\<lparr>q_next := True\<rparr>))"

definition skip :: "env \<Rightarrow> queue \<Rightarrow> (error + song option) \<times> queue" where
  "skip e q0 =
     (let q = call TaskQueue_queuing q0;
          (r, q') =
            (if length (songs q) \<le> 1 then
               (if autoplay q then
                  (case addRelatedSong e q of
                     (Inl err, q1) \<Rightarrow> (Inl err, q1)
                   | (Inr _, q1) \<Rightarrow> skip_next q1)
                else (Inl NO_UP_NEXT, q))
             else skip_next q)
      in (r, call TaskQueue_resolve q'))"

definition previous_admitted :: "env \<Rightarrow> queue \<Rightarrow> (error + song option) \<times> queue" where
  "previous_admitted e q =
     (let (r, q') =
            (if \<not> savePreviousSongs e then (Inl DISABLED_OPTION, q)
             else if length (previousSongs q) = 0 \<and> repeatMode q \<noteq> QUEUE
               then (Inl NO_PREVIOUS, q)
             else
               (let song =
                      (if repeatMode q = Number (Num 2)
                       then index (songs q) (int (length (songs q)) - 1)
                       else index (previousSongs q) (int (length (previousSongs q)) - 1))
                in (Inr song, call Voice_stop (q\<lparr>q_prev := True\<rparr>))))
      in (r, call TaskQueue_resolve q'))"

definition previous :: "env \<Rightarrow> queue \<Rightarrow> (error + song option) \<times> queue" where
  "previous e q0 = previous_admitted e (call TaskQueue_queuing q0)"

text \<open>
  The destructuring swap \<open>[xs[i], xs[j]] = [xs[j], xs[i]]\<close>: both reads come first.
\<close>

definition swap :: "nat \<Rightarrow> nat \<Rightarrow> 'a list \<Rightarrow> 'a list" where
  "swap i j xs = xs[i := xs ! j, j := xs ! i]"

text \<open>
  The loop of \<open>shuffle\<close>, \<open>for (let i = length - 1; i > 0; i--)\<close>. The argument
  \<open>random\<close> gives the successive values of \<open>Math.random()\<close> and \<open>n\<close> counts the
  calls made so far.
\<close>

fun shuffle_loop :: "(nat \<Rightarrow> real) \<Rightarrow> nat \<Rightarrow> nat \<Rightarrow> 'a list \<Rightarrow> 'a list" where
  "shuffle_loop random n 0 xs = xs"
| "shuffle_loop random n (Suc i) xs =
     (let j = nat \<lfloor>random n * (real (Suc i) + 1)\<rfloor>
      in shuffle_loop random (Suc n) i (swap (Suc i) j xs))"

definition shuffle_admitted :: "(nat \<Rightarrow> real) \<Rightarrow> queue \<Rightarrow> (error + unit) \<times> queue" where
  "shuffle_admitted random q =
     (let (r, q') =
            (case songs q of
               [] \<Rightarrow> (Inr (), q)
             | first # rest \<Rightarrow>
                 (Inr (), q\<lparr>songs := first # shuffle_loop random 0 (length rest - 1) rest\<rparr>))
      in (r, call TaskQueue_resolve q'))"

definition shuffle :: "(nat \<Rightarrow> real) \<Rightarrow> queue \<Rightarrow> (error + unit) \<times> queue" where
  "shuffle random q0 = shuffle_admitted random (call TaskQueue_queuing q0)"

text \<open>
  \<open>jump(position)\<close>. The test \<open>!position\<close> holds of 0 and of \<open>NaN\<close>. Going
  forward the songs before the target move to the history, whole or as objects with an
  \<open>id\<close> only; going back the last songs of the history return to the front of the
  list.
\<close>

definition jump_admitted :: "env \<Rightarrow> number \<Rightarrow> queue \<Rightarrow> (error + song option) \<times> queue" where
  "jump_admitted e position q =
     (let (r, q') =
            (case position of
               NaN \<Rightarrow> (Inl NO_SONG_POSITION, q)
             | Num p \<Rightarrow>
                 if p = 0 \<or> p > real (length (songs q))
                    \<or> - p > real (length (previousSongs q))
                   then (Inl NO_SONG_POSITION, q)
                 else if p > 0 then
                   (let (nextSongs, skipped) = splice_from (p - 1) (songs q);
                        q1 = (if savePreviousSongs e
                              then q\<lparr>previousSongs := previousSongs q @ skipped\<rparr>
                              else q\<lparr>previousSongs := previousSongs q
                                      @ map (\<lambda>s. Song (song_id s) None None None) skipped\<rparr>);
                        q2 = q1\<lparr>songs := nextSongs, q_next := True\<rparr>
                    in (Inr (index nextSongs 1), call Voice_stop q2))
                 else if \<not> savePreviousSongs e then (Inl DISABLED_OPTION, q)
                 else
                   (let q1 = q\<lparr>q_prev := True\<rparr>;
                        q2 = (if p \<noteq> - 1 then
                                (let (moved, kept) = splice_from (p + 1) (previousSongs q1)
                                 in q1\<lparr>previousSongs := kept, songs := moved @ songs q1\<rparr>)
                              else q1)
                    in (Inr (index (previousSongs q2) (int (length (previousSongs q2)) - 1)),
                        call Voice_stop q2)))
      in (r, call TaskQueue_resolve q'))"

definition jump :: "env \<Rightarrow> number \<Rightarrow> queue \<Rightarrow> (error + song option) \<times> queue" where
  "jump e position q0 = jump_admitted e position (call TaskQueue_queuing q0)"

text \<open>
  \<open>values.includes(x)\<close>: no number of the list is \<open>NaN\<close>, so equality decides
  it.
\<close>

definition includes_arg :: "mode list \<Rightarrow> argument \<Rightarrow> bool" where
  "includes_arg ms x = (case x of Mode m \<Rightarrow> m \<in> set ms | Undefined \<Rightarrow> False | Other \<Rightarrow> False)"

text \<open>
  \<open>x % y\<close> on numbers: the remainder has the sign of \<open>x\<close>. And
  \<open>(this.repeatMode + 1) % 3\<close>: on a number the sum is a number; on a key the sum is
  the key followed by \<open>1\<close>, a string that stands for no number, and the remainder is
  \<open>NaN\<close>.
\<close>

definition remainder :: "real \<Rightarrow> real \<Rightarrow> real" where
  "remainder x y = x - y * of_int (ToIntegerOrInfinity (x / y))"

definition successor :: "mode \<Rightarrow> mode" where
  "successor m =
     (case m of
        Number NaN \<Rightarrow> Number NaN
      | Number (Num r) \<Rightarrow> Number (Num (remainder (r + 1) 3))
      | Key k \<Rightarrow> Number NaN)"

text \<open>
  \<open>setRepeatMode(mode?)\<close>. In the test \<open>this.repeatMode === mode\<close> the argument has
  passed the guard, so it is not \<open>NaN\<close> and equality decides the test.
\<close>

definition setRepeatMode :: "argument \<Rightarrow> queue \<Rightarrow> (error + mode) \<times> queue" where
  "setRepeatMode mode q =
     (if mode \<noteq> Undefined \<and> \<not> includes_arg RepeatMode_values mode then (Inl INVALID_TYPE, q)
      else
        (case mode of
           Undefined \<Rightarrow>
             (let q' = q\<lparr>repeatMode := successor (repeatMode q)\<rparr> in (Inr (repeatMode q'), q'))
         | Mode m \<Rightarrow>
             if repeatMode q = m then
               (let q' = q\<lparr>repeatMode := DISABLED\<rparr> in (Inr (repeatMode q'), q'))
             else (let q' = q\<lparr>repeatMode := m\<rparr> in (Inr (repeatMode q'), q'))
         | Other \<Rightarrow> (Inl INVALID_TYPE, q)))"

text \<open>
  \<open>play\<close> hands over to \<open>queues.playSong\<close>; \<open>seek\<close> sets the begin time before
  it calls \<open>play(false)\<close>, whose error it lets through.
\<close>

definition play :: "bool \<Rightarrow> queue \<Rightarrow> (error + unit) \<times> queue" where
  "play emitPlaySong q =
     (if stopped q then (Inl QUEUE_STOPPED, q)
      else (Inr (), call (Queues_playSong emitPlaySong) (q\<lparr>playing := True\<rparr>)))"

definition seek :: "number \<Rightarrow> queue \<Rightarrow> (error + unit) \<times> queue" where
  "seek time q =
     (case time of
        NaN \<Rightarrow> (Inl NUMBER_COMPARE, q)
      | Num t \<Rightarrow>
          if t < 0 then (Inl NUMBER_COMPARE, q)
          else play False (q\<lparr>q_beginTime := t\<rparr>))"

text \<open>
  \<open>remove\<close> and \<open>stop\<close> return nothing. \<open>remove\<close> takes every listener in
  \<open>_listeners\<close>, when there are any, off the voice connection.
\<close>

definition remove :: "queue \<Rightarrow> queue" where
  "remove q =
     (let q1 = q\<lparr>playing := False, paused := False, stopped := True,
                 songs := [], previousSongs := []\<rparr>;
          q2 = (case q_listeners q1 of
                  None \<Rightarrow> q1
                | Some events \<Rightarrow> fold (\<lambda>event. call (Voice_off event)) events q1)
      in call Emit_DELETE_QUEUE (call (Queues_remove (queue_id q2)) q2))"

definition stop_admitted :: "queue \<Rightarrow> queue" where
  "stop_admitted q = (let q' = remove (call Voice_stop q) in call TaskQueue_resolve q')"

definition stop :: "queue \<Rightarrow> queue" where
  "stop q0 = stop_admitted (call TaskQueue_queuing q0)"

definition toggleAutoplay :: "queue \<Rightarrow> bool \<times> queue" where
  "toggleAutoplay q = (let q' = q\<lparr>autoplay := \<not> autoplay q\<rparr> in (autoplay q', q'))"

subsection \<open>The task queue in the calls of a method\<close>

text \<open>
  \<open>window q q'\<close>: from \<open>q\<close> to \<open>q'\<close> the calls made are one call of
  \<open>_taskQueue.queuing()\<close> first, one call of \<open>_taskQueue.resolve()\<close> last, and no
  call of the task queue between them.
\<close>

definition window :: "queue \<Rightarrow> queue \<Rightarrow> bool" where
  "window q q' =
     (let made = drop (length (calls q)) (calls q')
      in take (length (calls q)) (calls q') = calls q
         \<and> 2 \<le> length made
         \<and> hd made = TaskQueue_queuing \<and> last made = TaskQueue_resolve
         \<and> TaskQueue_queuing \<notin> set (tl made)
         \<and> TaskQueue_resolve \<notin> set (butlast made))"

subsection \<open>Commands issued concurrently\<close>

text \<open>
  Modelled from the spec: the class \<open>TaskQueue\<close> is declared outside Queue.ts. The
  specification describes it as a first-in first-out lock: a request appends a ticket, the
  request is granted once every earlier ticket has been released, and a release admits the
  next-oldest ticket. The tickets pending are a list, oldest first; a ticket is the number
  of the command that requested it. \<open>queuing\<close> is the request, \<open>admitted\<close> says
  that the promise of the request has resolved, \<open>resolve\<close> is the release.
\<close>

definition queuing :: "nat \<Rightarrow> nat list \<Rightarrow> nat list" where
  "queuing t tq = tq @ [t]"

definition admitted :: "nat \<Rightarrow> nat list \<Rightarrow> bool" where
  "admitted t tq = (case tq of [] \<Rightarrow> False | x # _ \<Rightarrow> x = t)"

definition resolve :: "nat list \<Rightarrow> nat list" where
  "resolve tq = tl tq"

text \<open>
  The seven asynchronous methods as commands; \<open>shuffle\<close> carries its source of
  random numbers and \<open>jump\<close> its argument. What the promise of a command settles
  with: an error, or \<open>this\<close>, or a song (\<open>undefined\<close> when the array read found
  none), or nothing.
\<close>

datatype command = Pause | Resume | Skip | Previous | Shuffle "nat \<Rightarrow> real" | Jump number | Stop

datatype returned = This | Next "song option" | Nothing

type_synonym reply = "error + returned"

definition this_reply :: "(error + unit) \<times> queue \<Rightarrow> reply \<times> queue" where
  "this_reply x = (case fst x of Inl err \<Rightarrow> Inl err | Inr _ \<Rightarrow> Inr This, snd x)"

definition next_reply :: "(error + song option) \<times> queue \<Rightarrow> reply \<times> queue" where
  "next_reply x = (case fst x of Inl err \<Rightarrow> Inl err | Inr song \<Rightarrow> Inr (Next song), snd x)"

text \<open>
  A command run from its call to its return with nothing between, and a list of commands
  run one after another in the order of the list.
\<close>

definition sequential :: "env \<Rightarrow> command \<Rightarrow> queue \<Rightarrow> reply \<times> queue" where
  "sequential e c q =
     (case c of
        Pause \<Rightarrow> this_reply (pause q)
      | Resume \<Rightarrow> this_reply (resume q)
      | Skip \<Rightarrow> next_reply (skip e q)
      | Previous \<Rightarrow> next_reply (previous e q)
      | Shuffle random \<Rightarrow> this_reply (shuffle random q)
      | Jump position \<Rightarrow> next_reply (jump e position q)
      | Stop \<Rightarrow> (Inr Nothing, stop q))"

fun in_turn :: "env \<Rightarrow> command list \<Rightarrow> queue \<Rightarrow> reply list \<times> queue" where
  "in_turn e [] q = ([], q)"
| "in_turn e (c # cs) q =
     (let (r, q') = sequential e c q; (rs, q'') = in_turn e cs q' in (r # rs, q''))"

text \<open>
  A command in progress. JavaScript runs a piece of an asynchronous method from one
  \<open>await\<close> to the next without interruption, and between two pieces any other piece
  that is ready may run. \<open>pc\<close> says at which \<open>await\<close> a command stands, with the
  local variables it has read so far:
  \<^item> \<open>Queued\<close>: at \<open>await this._taskQueue.queuing()\<close>;
  \<^item> \<open>Related1 current prevIds\<close>: \<open>skip\<close> inside \<open>addRelatedSong\<close>, at the first
    \<open>await this.#getRelatedSong(current)\<close>;
  \<^item> \<open>Related2 current prevIds altSong\<close>: at the second, for the streamed song;
  \<^item> \<open>Added outcome\<close>: \<open>addRelatedSong\<close> has settled and \<open>skip\<close> stands at
    \<open>await this.addRelatedSong()\<close>;
  \<^item> \<open>Returned r\<close>: the promise of the command has settled with \<open>r\<close>.
\<close>

datatype pc =
    Queued
  | Related1 song "string list"
  | Related2 song "string list" song
  | Added "error + song"
  | Returned reply

definition returns :: "reply \<times> queue \<Rightarrow> pc \<times> queue" where
  "returns x = (Returned (fst x), snd x)"

definition added :: "(error + song) \<times> queue \<Rightarrow> pc \<times> queue" where
  "added x = (Added (fst x), snd x)"

text \<open>
  \<open>start\<close> is the piece a call runs at once: every one of the seven methods begins
  with \<open>await this._taskQueue.queuing()\<close> and does nothing before it.
\<close>

definition start :: "command \<Rightarrow> queue \<Rightarrow> pc \<times> queue" where
  "start c q = (Queued, call TaskQueue_queuing q)"

text \<open>
  The pieces of \<open>skip\<close>. \<open>skip_admitted\<close> runs from the admission to the first
  \<open>await\<close> inside \<open>addRelatedSong\<close>, or to the return when there is none;
  \<open>addRelatedSong\<close> reads \<open>songs[0]\<close> and the ids of \<open>previousSongs\<close> before
  it waits. \<open>skip_resumed\<close> runs from one \<open>await\<close> to the next.
  \<open>skip_returns\<close> is the end of \<open>skip\<close>: the statements after the test of the
  length, and the \<open>finally\<close> block.
\<close>

definition skip_returns :: "queue \<Rightarrow> pc \<times> queue" where
  "skip_returns q = (let (r, q') = skip_next q in returns (next_reply (r, call TaskQueue_resolve q')))"

definition skip_admitted :: "env \<Rightarrow> queue \<Rightarrow> pc \<times> queue" where
  "skip_admitted e q =
     (if length (songs q) \<le> 1 then
        (if autoplay q then
           (case songs q of
              [] \<Rightarrow> (Added (Inl NO_PLAYING_SONG), q)
            | current # _ \<Rightarrow>
                (Related1 current (map song_id (previousSongs q)),
                 call (GetRelatedSong current) q))
         else (Returned (Inl NO_UP_NEXT), call TaskQueue_resolve q))
      else skip_returns q)"

definition skip_resumed :: "env \<Rightarrow> pc \<Rightarrow> queue \<Rightarrow> pc \<times> queue" where
  "skip_resumed e p q =
     (case p of
        Related1 current prevIds \<Rightarrow>
          (let relatedSongs = unseen prevIds (getRelatedSong e current);
               q1 = call Debug q
           in if relatedSongs = [] then
                (case stream current of
                   None \<Rightarrow> (Added (Inl TypeError), q1)
                 | Some st \<Rightarrow>
                     if \<not> playFromSource st then
                       (case stream_song st of
                          None \<Rightarrow> added (addRelatedSong_first e current [] (call Debug q1))
                        | Some altSong \<Rightarrow>
                            (Related2 current prevIds altSong,
                             call (GetRelatedSong altSong) q1))
                     else added (addRelatedSong_first e current [] q1))
              else added (addRelatedSong_first e current relatedSongs q1))
      | Related2 current prevIds altSong \<Rightarrow>
          added (addRelatedSong_first e current
                   (unseen prevIds (getRelatedSong e altSong)) (call Debug q))
      | Added outcome \<Rightarrow>
          (case outcome of
             Inl err \<Rightarrow> (Returned (Inl err), call TaskQueue_resolve q)
           | Inr song \<Rightarrow> skip_returns q)
      | Queued \<Rightarrow> (p, q)
      | Returned r \<Rightarrow> (p, q))"

text \<open>
  \<open>proceed\<close> runs the next piece of a command. The other six methods have no
  \<open>await\<close> after the first, so their one piece is the function named
  \<open>_admitted\<close>.
\<close>

definition proceed :: "env \<Rightarrow> command \<Rightarrow> pc \<Rightarrow> queue \<Rightarrow> pc \<times> queue" where
  "proceed e c p q =
     (case p of
        Queued \<Rightarrow>
          (case c of
             Pause \<Rightarrow> returns (this_reply (pause_admitted q))
           | Resume \<Rightarrow> returns (this_reply (resume_admitted q))
           | Skip \<Rightarrow> skip_admitted e q
           | Previous \<Rightarrow> returns (next_reply (previous_admitted e q))
           | Shuffle random \<Rightarrow> returns (this_reply (shuffle_admitted random q))
           | Jump position \<Rightarrow> returns (next_reply (jump_admitted e position q))
           | Stop \<Rightarrow> (Returned (Inr Nothing), stop_admitted q))
      | Returned r \<Rightarrow> (p, q)
      | _ \<Rightarrow> skip_resumed e p q)"

text \<open>
  One queue with the commands issued on it so far: the queue, the tickets pending, and for
  each command, in the order of issue, what it is and where it stands.
\<close>

record system =
  shared :: queue
  tasks :: "nat list"
  cmds :: "command list"
  pcs :: "pc list"

definition initial :: "queue \<Rightarrow> system" where
  "initial q = \<lparr>shared = q, tasks = [], cmds = [], pcs = []\<rparr>"

text \<open>
  \<open>made q q'\<close> are the calls logged from \<open>q\<close> to \<open>q'\<close>; \<open>react t\<close> passes a
  call of the task queue made by command \<open>t\<close> on to the tickets.
\<close>

definition made :: "queue \<Rightarrow> queue \<Rightarrow> call list" where
  "made q q' = drop (length (calls q)) (calls q')"

definition react :: "nat \<Rightarrow> call \<Rightarrow> nat list \<Rightarrow> nat list" where
  "react t c tq =
     (if c = TaskQueue_queuing then queuing t tq
      else if c = TaskQueue_resolve then resolve tq
      else tq)"

text \<open>
  A command waiting for its ticket can run when it is admitted; a command waiting for
  related songs or for \<open>addRelatedSong\<close> can run whatever the tickets are (those
  promises do not depend on the task queue); a command that has returned runs no more.
\<close>

definition runnable :: "nat \<Rightarrow> system \<Rightarrow> bool" where
  "runnable i s =
     (case pcs s ! i of
        Queued \<Rightarrow> admitted i (tasks s)
      | Returned r \<Rightarrow> False
      | _ \<Rightarrow> True)"

text \<open>
  A step of the system is the call of a new command (\<open>Issue\<close>), or the next piece of
  command number \<open>i\<close> (\<open>Advance i\<close>), which is refused (\<open>None\<close>) when that
  command cannot run. \<open>run\<close> takes the steps of a schedule in order.
\<close>

datatype action = Issue command | Advance nat

definition exec :: "env \<Rightarrow> action \<Rightarrow> system \<Rightarrow> system option" where
  "exec e a s =
     (case a of
        Issue c \<Rightarrow>
          (let (p, q) = start c (shared s)
           in Some (s\<lparr>shared := q,
                      tasks := fold (react (length (cmds s))) (made (shared s) q) (tasks s),
                      cmds := cmds s @ [c], pcs := pcs s @ [p]\<rparr>))
      | Advance i \<Rightarrow>
          if i < length (cmds s) \<and> i < length (pcs s) \<and> runnable i s then
            (let (p, q) = proceed e (cmds s ! i) (pcs s ! i) (shared s)
             in Some (s\<lparr>shared := q,
                        tasks := fold (react i) (made (shared s) q) (tasks s),
                        pcs := (pcs s)[i := p]\<rparr>))
          else None)"

fun run :: "env \<Rightarrow> action list \<Rightarrow> system \<Rightarrow> system option" where
  "run e [] s = Some s"
| "run e (a # as) s = (case exec e a s of None \<Rightarrow> None | Some s' \<Rightarrow> run e as s')"

text \<open>
  The fields of a queue without the log of calls; a queue with calls logged before its
  own; and the test of a command having returned.
\<close>

definition fields :: "queue \<Rightarrow> queue" where
  "fields q = q\<lparr>calls := []\<rparr>"

definition behind :: "call list \<Rightarrow> queue \<Rightarrow> queue" where
  "behind cs q = q\<lparr>calls := cs @ calls q\<rparr>"

definition returned :: "pc \<Rightarrow> bool" where
  "returned p = (case p of Returned r \<Rightarrow> True | _ \<Rightarrow> False)"

text \<open>
  A command has at most four pieces after its call. \<open>finish\<close> lets a command run
  alone, piece after piece, until it has returned.
\<close>

definition rank :: "pc \<Rightarrow> nat" where
  "rank p =
     (case p of
        Queued \<Rightarrow> 4
      | Related1 current prevIds \<Rightarrow> 3
      | Related2 current prevIds altSong \<Rightarrow> 2
      | Added outcome \<Rightarrow> 1
      | Returned r \<Rightarrow> 0)"

fun go :: "nat \<Rightarrow> env \<Rightarrow> command \<Rightarrow> pc \<times> queue \<Rightarrow> pc \<times> queue" where
  "go 0 e c x = x"
| "go (Suc n) e c x = go n e c (proceed e c (fst x) (snd x))"

definition finish :: "env \<Rightarrow> command \<Rightarrow> pc \<times> queue \<Rightarrow> pc \<times> queue" where
  "finish e c x = go 4 e c x"

text \<open>
  \<open>quiet\<close>: no call of the task queue among the calls. \<open>extends q q' released\<close>:
  the calls of \<open>q'\<close> are those of \<open>q\<close>, then calls that are not of the task queue,
  then one \<open>_taskQueue.resolve()\<close> if \<open>released\<close>.
\<close>

definition quiet :: "call list \<Rightarrow> bool" where
  "quiet cs = (TaskQueue_queuing \<notin> set cs \<and> TaskQueue_resolve \<notin> set cs)"

definition extends :: "queue \<Rightarrow> queue \<Rightarrow> bool \<Rightarrow> bool" where
  "extends q q' released =
     (\<exists>mid. calls q' = calls q @ mid @ (if released then [TaskQueue_resolve] else [])
        \<and> quiet mid)"

text \<open>
  \<open>finished s\<close> is the number of commands that have returned. \<open>serial e q0 s k\<close>
  relates a system \<open>s\<close> started on the queue \<open>q0\<close> to the run of its first \<open>k\<close>
  commands one after another: these have returned what they return in that run, the
  tickets pending are those of the other commands in the order of issue, all of them but
  the oldest wait for their ticket, and the oldest, run alone from where it stands, ends
  as it does in that run.
\<close>

definition finished :: "system \<Rightarrow> nat" where
  "finished s = length (filter returned (pcs s))"

definition serial :: "env \<Rightarrow> queue \<Rightarrow> system \<Rightarrow> nat \<Rightarrow> bool" where
  "serial e q0 s k =
     (k \<le> length (cmds s) \<and> length (pcs s) = length (cmds s)
      \<and> tasks s = [k..<length (cmds s)]
      \<and> take k (pcs s) = map Returned (fst (in_turn e (take k (cmds s)) q0))
      \<and> (\<forall>i. k < i \<and> i < length (cmds s) \<longrightarrow> pcs s ! i = Queued)
      \<and> (k = length (cmds s) \<longrightarrow>
           fields (shared s) = fields (snd (in_turn e (take k (cmds s)) q0)))
      \<and> (k < length (cmds s) \<longrightarrow>
           \<not> returned (pcs s ! k)
           \<and> (pcs s ! k = Queued \<longrightarrow>
                fields (shared s) = fields (snd (in_turn e (take k (cmds s)) q0)))
           \<and> fst (finish e (cmds s ! k) (pcs s ! k, shared s))
               = Returned (fst (sequential e (cmds s ! k) (snd (in_turn e (take k (cmds s)) q0))))
           \<and> fields (snd (finish e (cmds s ! k) (pcs s ! k, shared s)))
               = fields (snd (sequential e (cmds s ! k)
                   (snd (in_turn e (take k (cmds s)) q0))))))"

subsection \<open>Concrete queues\<close>

definition song_a :: song where
  "song_a = Song ''a'' (Some ''mix'') (Some ''alice'') (Some (Stream True None))"

definition song_b :: song where
  "song_b = Song ''b'' None (Some ''bob'') (Some (Stream True None))"

definition song_c :: song where
  "song_c = Song ''c'' None None (Some (Stream False (Some song_b)))"

definition song_x :: song where
  "song_x = Song ''x'' None None (Some (Stream True None))"

definition example_queue :: queue where
  "example_queue =
     \<lparr>queue_id = ''guild'', songs = [song_a, song_b, song_c], previousSongs = [],
      stopped = False, playing = True, paused = False, repeatMode = DISABLED, autoplay = False,
      q_beginTime = 0, q_next = False, q_prev = False, q_listeners = None, calls = []\<rparr>"

definition last_song_queue :: queue where
  "last_song_queue = example_queue\<lparr>songs := [song_a], autoplay := True\<rparr>"

definition example_env :: env where
  "example_env =
     \<lparr>savePreviousSongs = True, clientMember = Some ''bot'', getRelatedSong = (\<lambda>s. [])\<rparr>"

definition related_env :: env where
  "related_env =
     \<lparr>savePreviousSongs = True, clientMember = Some ''bot'',
      getRelatedSong = (\<lambda>s. [song_x])\<rparr>"

definition retry_env :: env where
  "retry_env =
     \<lparr>savePreviousSongs = True, clientMember = Some ''bot'',
      getRelatedSong = (\<lambda>s. if s = song_b then [song_x] else [])\<rparr>"

definition example_random :: "nat \<Rightarrow> real" where
  "example_random n = (if n = 0 then 1 / 4 else 3 / 4)"

definition memberless_env :: env where
  "memberless_env =
     \<lparr>savePreviousSongs = True, clientMember = None, getRelatedSong = (\<lambda>s. [song_b])\<rparr>"

text \<open>
  A schedule of two commands on the queue with one song: \<open>skip\<close> is called and
  admitted, \<open>pause\<close> is called while \<open>skip\<close> waits for the related songs,
  \<open>skip\<close> runs to its end, then \<open>pause\<close>. \<open>skip_waiting\<close> is the system after
  the first two steps.
\<close>

definition example_schedule :: "action list" where
  "example_schedule = [Issue Skip, Advance 0, Issue Pause, Advance 0, Advance 0, Advance 1]"

definition skip_waiting :: system where
  "skip_waiting =
     \<lparr>shared = call (GetRelatedSong song_a) (call TaskQueue_queuing last_song_queue),
      tasks = [0], cmds = [Skip], pcs = [Related1 song_a []]\<rparr>"

section \<open>Properties\<close>

subsection \<open>Auxiliary facts\<close>

lemma call_simps [simp]:
  "songs (call c q) = songs q" "previousSongs (call c q) = previousSongs q"
  "stopped (call c q) = stopped q" "paused (call c q) = paused q"
  "autoplay (call c q) = autoplay q" "repeatMode (call c q) = repeatMode q"
  "playing (call c q) = playing q" "q_next (call c q) = q_next q"
  "q_prev (call c q) = q_prev q" "q_listeners (call c q) = q_listeners q"
  "queue_id (call c q) = queue_id q" "q_beginTime (call c q) = q_beginTime q"
  "calls (call c q) = calls q @ [c]"
  by (simp_all add: call_def)

lemma index_last:
  "index xs (int (length xs) - 1) = (if xs = [] then None else Some (last xs))"
proof (cases "xs = []")
  case True
  then show ?thesis by (simp add: index_def)
next
  case False
  then have "nat (int (length xs) - 1) = length xs - 1" by simp
  with False show ?thesis by (simp add: index_def last_conv_nth)
qed

lemma splice_insert_nat:
  "k \<le> length xs \<Longrightarrow> splice_insert (real k) ys xs = take k xs @ ys @ drop k xs"
  by (simp add: splice_insert_def splice_start_def ToIntegerOrInfinity_def)

lemma related_song:
  "set_member x (set_metadata y s)
     = Song (song_id s) y (case x of None \<Rightarrow> member s | Some m \<Rightarrow> Some m) (stream s)"
  by (simp add: set_member_def set_metadata_def split: option.split)

lemma addRelatedSong_first_cases:
  "addRelatedSong_first e current [] q = (Inl NO_RELATED, q)"
  "stopped q \<Longrightarrow> addRelatedSong_first e current (s # rest) q = (Inl QUEUE_STOPPED, q)"
  "\<not> stopped q \<Longrightarrow> addRelatedSong_first e current (s # rest) q =
     (Inr (set_member (clientMember e) (set_metadata (metadata current) s)),
      q\<lparr>songs := songs q @ [set_member (clientMember e) (set_metadata (metadata current) s)]\<rparr>)"
  by (simp_all add: addRelatedSong_first_def addToQueue_def isInteger_def Let_def)

lemma addRelatedSong_first_kinds:
  "fst (addRelatedSong_first e current rel q) \<noteq> Inl NO_UP_NEXT"
  by (cases rel; cases "stopped q") (simp_all add: addRelatedSong_first_cases)

lemma addRelatedSong_first_songs:
  "addRelatedSong_first e current rel q = (Inr s, q') \<Longrightarrow> songs q' = songs q @ [s]"
  by (cases rel; cases "stopped q") (auto simp add: addRelatedSong_first_cases)

lemma addRelatedSong_kinds: "fst (addRelatedSong e q) \<noteq> Inl NO_UP_NEXT"
  by (simp add: addRelatedSong_def Let_def addRelatedSong_first_kinds
      split: list.split option.split)

lemma addRelatedSong_songs:
  assumes "addRelatedSong e q = (Inr s, q')"
  shows "songs q \<noteq> [] \<and> songs q' = songs q @ [s]"
  using assms
  by (auto simp add: addRelatedSong_def Let_def split: list.splits option.splits if_splits
      dest!: addRelatedSong_first_songs)

lemma addRelatedSong_first_call:
  "fst (addRelatedSong_first e current rel (call c q)) = fst (addRelatedSong_first e current rel q)"
  by (cases rel; cases "stopped q") (simp_all add: addRelatedSong_first_cases)

lemma addRelatedSong_call:
  "fst (addRelatedSong e (call c q)) = fst (addRelatedSong e q)"
  by (simp add: addRelatedSong_def Let_def addRelatedSong_first_call
      split: list.split option.split)

lemma random_index:
  assumes "0 \<le> r" and "r < 1"
  shows "nat \<lfloor>r * (real i + 1)\<rfloor> \<le> i"
proof -
  from assms have "r * (real i + 1) < real i + 1"
    by (simp add: mult_less_cancel_right1)
  then have "r * (real i + 1) < of_int (int i + 1)" by simp
  then have "\<lfloor>r * (real i + 1)\<rfloor> < int i + 1"
    by (rule floor_less_iff [THEN iffD2])
  then have "\<lfloor>r * (real i + 1)\<rfloor> \<le> int i" by linarith
  then show ?thesis by (simp only: nat_le_iff)
qed

lemma swap_mset:
  "i < length xs \<Longrightarrow> j < length xs \<Longrightarrow> mset (swap i j xs) = mset xs"
  using mset_swap [of j xs i] by (simp add: swap_def)

lemma swap_length: "length (swap i j xs) = length xs"
  by (simp add: swap_def)

lemma shuffle_loop_mset:
  assumes "\<forall>n. 0 \<le> random n \<and> random n < 1"
  shows "i < length xs \<Longrightarrow> mset (shuffle_loop random n i xs) = mset xs"
proof (induction i arbitrary: n xs)
  case 0
  then show ?case by simp
next
  case (Suc i)
  let ?j = "nat \<lfloor>random n * (real (Suc i) + 1)\<rfloor>"
  from assms have "?j \<le> Suc i" by (intro random_index) simp_all
  with Suc.prems have j: "?j < length xs" by simp
  from Suc.prems have "i < length (swap (Suc i) ?j xs)" by (simp add: swap_length)
  then have "mset (shuffle_loop random (Suc n) i (swap (Suc i) ?j xs))
      = mset (swap (Suc i) ?j xs)"
    by (rule Suc.IH)
  with Suc.prems j show ?case by (simp add: Let_def swap_mset)
qed

lemma fold_Voice_off_calls:
  "calls (fold (\<lambda>event. call (Voice_off event)) events q) = calls q @ map Voice_off events"
  by (induction events arbitrary: q) simp_all

lemma remove_calls:
  "\<exists>mid. calls (remove q) = calls q @ mid
     \<and> TaskQueue_queuing \<notin> set mid \<and> TaskQueue_resolve \<notin> set mid"
  by (auto simp add: remove_def Let_def fold_Voice_off_calls split: option.split)

subsection \<open>Skipping\<close>

text \<open>
  Claim C3, as the code has it. \<open>skip\<close> fails with \<open>NO_UP_NEXT\<close> exactly when fewer
  than two songs remain and autoplay is off, and then the list of songs is as it was. With
  two songs or more it returns the song at index 1 at the moment of the call. With fewer
  than two songs and autoplay on, the outcome is that of \<open>addRelatedSong\<close>: its error
  under its own kind (\<open>NO_RELATED\<close> when the lookup yields no song), or the related song
  that it appended.
\<close>

theorem skip_outcomes:
  "(fst (skip e q) = Inl NO_UP_NEXT \<longleftrightarrow> length (songs q) < 2 \<and> \<not> autoplay q)
   \<and> (fst (skip e q) = Inl NO_UP_NEXT \<longrightarrow> songs (snd (skip e q)) = songs q)
   \<and> (2 \<le> length (songs q) \<longrightarrow> fst (skip e q) = Inr (Some (songs q ! 1)))
   \<and> (length (songs q) < 2 \<and> autoplay q \<longrightarrow>
        fst (skip e q) =
          (case fst (addRelatedSong e q) of
             Inl err \<Rightarrow> Inl err
           | Inr s \<Rightarrow> Inr (Some s)))"
proof (cases "length (songs q) \<le> 1")
  case False
  then show ?thesis by (simp add: skip_def skip_next_def Let_def index_def)
next
  case short: True
  show ?thesis
  proof (cases "autoplay q")
    case False
    with short show ?thesis by (simp add: skip_def Let_def)
  next
    case True
    obtain r q1 where a: "addRelatedSong e (call TaskQueue_queuing q) = (r, q1)"
      by (cases "addRelatedSong e (call TaskQueue_queuing q)")
    with addRelatedSong_call [of e TaskQueue_queuing q] have b: "fst (addRelatedSong e q) = r"
      by simp
    show ?thesis
    proof (cases r)
      case (Inl err)
      with a addRelatedSong_kinds [of e "call TaskQueue_queuing q"] have "err \<noteq> NO_UP_NEXT"
        by auto
      with short True a b Inl show ?thesis by (simp add: skip_def Let_def)
    next
      case (Inr s)
      with a addRelatedSong_songs [of e "call TaskQueue_queuing q" s q1]
      have "songs q \<noteq> []" and "songs q1 = songs q @ [s]" by simp_all
      with short have "index (songs q1) 1 = Some s"
        by (cases "songs q") (simp_all add: index_def)
      with short True a b Inr show ?thesis by (simp add: skip_def skip_next_def Let_def)
    qed
  qed
qed

theorem skip_outcomes_witness:
  "fst (skip example_env (example_queue\<lparr>songs := [song_a]\<rparr>)) = Inl NO_UP_NEXT
   \<and> songs (snd (skip example_env (example_queue\<lparr>songs := [song_a]\<rparr>))) = [song_a]
   \<and> fst (skip example_env example_queue) = Inr (Some song_b)
   \<and> fst (skip related_env last_song_queue)
       = Inr (Some (Song ''x'' (Some ''mix'') (Some ''bot'') (Some (Stream True None))))"
proof -
  have "fst (addRelatedSong related_env last_song_queue)
          = Inr (Song ''x'' (Some ''mix'') (Some ''bot'') (Some (Stream True None)))"
    by (simp add: addRelatedSong_def addRelatedSong_first_cases related_song unseen_def
        Let_def last_song_queue_def example_queue_def related_env_def song_a_def song_x_def)
  moreover have "length (songs last_song_queue) < 2" and "autoplay last_song_queue"
    and "songs example_queue = [song_a, song_b, song_c]" and "\<not> autoplay example_queue"
    by (simp_all add: last_song_queue_def example_queue_def)
  ultimately show ?thesis
    using skip_outcomes [of example_env "example_queue\<lparr>songs := [song_a]\<rparr>"]
      skip_outcomes [of example_env example_queue]
      skip_outcomes [of related_env last_song_queue]
    by simp
qed

text \<open>
  One song, autoplay on, a lookup that yields nothing: the error is \<open>NO_RELATED\<close>, not
  \<open>NO_UP_NEXT\<close>.
\<close>

theorem skip_no_related_counterexample:
  "length (songs last_song_queue) < 2
   \<and> unseen (map song_id (previousSongs last_song_queue))
        (getRelatedSong example_env song_a) = []
   \<and> fst (skip example_env last_song_queue) = Inl NO_RELATED
   \<and> fst (skip example_env last_song_queue) \<noteq> Inl NO_UP_NEXT"
  by (simp add: skip_def addRelatedSong_def addRelatedSong_first_cases unseen_def Let_def
      last_song_queue_def example_queue_def example_env_def song_a_def)

subsection \<open>Adding songs\<close>

text \<open>
  Claim C4, as the code has it. On a queue that is not stopped, for a song or a non-empty
  list of songs: a position \<open>\<le> 0\<close> appends to the end of \<open>songs\<close>; a position
  \<open>k\<close> with \<open>1 \<le> k \<le> length\<close> puts the new songs at index \<open>k\<close>, after the
  former elements of index below \<open>k\<close> (which stay where they are) and before the
  former element of index \<open>k\<close>.
\<close>

theorem addToQueue_placement:
  assumes "\<not> stopped q"
  shows "(z \<le> 0 \<longrightarrow>
           addToQueue (One s) (Num (of_int z)) q = (Inr (), q\<lparr>songs := songs q @ [s]\<rparr>))
   \<and> (z \<le> 0 \<and> ss \<noteq> [] \<longrightarrow>
           addToQueue (Many ss) (Num (of_int z)) q = (Inr (), q\<lparr>songs := songs q @ ss\<rparr>))
   \<and> (1 \<le> k \<and> k \<le> length (songs q) \<longrightarrow>
           addToQueue (One s) (Num (real k)) q
             = (Inr (), q\<lparr>songs := take k (songs q) @ [s] @ drop k (songs q)\<rparr>))
   \<and> (1 \<le> k \<and> k \<le> length (songs q) \<and> ss \<noteq> [] \<longrightarrow>
           addToQueue (Many ss) (Num (real k)) q
             = (Inr (), q\<lparr>songs := take k (songs q) @ ss @ drop k (songs q)\<rparr>))"
  using assms
  by (simp add: addToQueue_def isInteger_def splice_insert_nat)

theorem addToQueue_placement_witness:
  "addToQueue (One song_x) (Num 0) example_queue
     = (Inr (), example_queue\<lparr>songs := [song_a, song_b, song_c, song_x]\<rparr>)
   \<and> addToQueue (Many [song_x, song_x]) (Num (- 1)) example_queue
     = (Inr (), example_queue\<lparr>songs := [song_a, song_b, song_c, song_x, song_x]\<rparr>)
   \<and> addToQueue (One song_x) (Num 2) example_queue
     = (Inr (), example_queue\<lparr>songs := [song_a, song_b, song_x, song_c]\<rparr>)
   \<and> addToQueue (Many [song_x, song_x]) (Num 3) example_queue
     = (Inr (), example_queue\<lparr>songs := [song_a, song_b, song_c, song_x, song_x]\<rparr>)"
proof -
  have a: "\<not> stopped example_queue"
    and b: "songs example_queue = [song_a, song_b, song_c]"
    by (simp_all add: example_queue_def)
  show ?thesis
    using addToQueue_placement [OF a, of 0 song_x "[song_x, song_x]" 2]
      addToQueue_placement [OF a, of "- 1" song_x "[song_x, song_x]" 3] b
    by simp
qed

text \<open>
  At position 1 the new song follows the former element of index 0; it does not precede
  it.
\<close>

theorem addToQueue_before_former_counterexample:
  "songs (snd (addToQueue (One song_x) (Num 1) example_queue))
     = [song_a, song_x, song_b, song_c]
   \<and> songs (snd (addToQueue (One song_x) (Num 1) example_queue))
       \<noteq> take (1 - 1) (songs example_queue) @ [song_x] @ drop (1 - 1) (songs example_queue)"
  by (simp add: addToQueue_def isInteger_def splice_insert_def splice_start_def
      ToIntegerOrInfinity_def example_queue_def song_a_def song_x_def)

subsection \<open>Jumping\<close>

text \<open>
  Claim C5, as the code has it. For a list of songs of length \<open>L\<close>, \<open>jump(L + 1)\<close>
  and \<open>jump(0)\<close> fail with \<open>NO_SONG_POSITION\<close>. On a non-empty list \<open>jump(1)\<close>
  leaves \<open>songs\<close> and \<open>previousSongs\<close> as they are, so the current song stays at
  index 0; with two songs or more it returns the song at index 1, the one up next.
\<close>

theorem jump_bounds:
  "fst (jump e (Num (real (length (songs q)) + 1)) q) = Inl NO_SONG_POSITION
   \<and> fst (jump e (Num 0) q) = Inl NO_SONG_POSITION
   \<and> (1 \<le> length (songs q) \<longrightarrow>
        songs (snd (jump e (Num 1) q)) = songs q
        \<and> previousSongs (snd (jump e (Num 1) q)) = previousSongs q)
   \<and> (2 \<le> length (songs q) \<longrightarrow> fst (jump e (Num 1) q) = Inr (Some (songs q ! 1)))"
  by (simp add: jump_def jump_admitted_def Let_def splice_from_def splice_start_def ToIntegerOrInfinity_def
      index_def)

theorem jump_bounds_witness:
  "fst (jump example_env (Num 4) example_queue) = Inl NO_SONG_POSITION
   \<and> fst (jump example_env (Num 0) example_queue) = Inl NO_SONG_POSITION
   \<and> songs (snd (jump example_env (Num 1) example_queue)) = [song_a, song_b, song_c]
   \<and> fst (jump example_env (Num 1) example_queue) = Inr (Some song_b)"
proof -
  have "songs example_queue = [song_a, song_b, song_c]" by (simp add: example_queue_def)
  with jump_bounds [of example_env example_queue] show ?thesis by simp
qed

text \<open>With three songs, \<open>jump(1)\<close> does not return the current song.\<close>

theorem jump_returns_current_counterexample:
  "index (songs example_queue) 0 = Some song_a
   \<and> fst (jump example_env (Num 1) example_queue) \<noteq> Inr (Some song_a)"
  by (simp add: jump_def jump_admitted_def Let_def splice_from_def splice_start_def ToIntegerOrInfinity_def
      index_def example_queue_def song_a_def song_b_def)

subsection \<open>Related songs\<close>

text \<open>
  Claim C8, as the code has it. With nothing playing \<open>addRelatedSong\<close> fails with
  \<open>NO_PLAYING_SONG\<close>. On a queue that is not stopped it selects the first related song
  whose identifier is not among those of \<open>previousSongs\<close>, from the lookup on the
  current song or, when that yields none and the current song is streamed from another
  song, from the lookup on that song. The selected song gets the metadata of the current
  song; its member becomes the client member of the queue when the queue has one (not the
  member of the current song), and stays the member the selected song came with when the
  queue has none. The song is appended to \<open>songs\<close> and returned. When the current
  song has its stream information and no candidate is left after the lookups, the method
  fails with \<open>NO_RELATED\<close>.
\<close>

theorem addRelatedSong_selects:
  "(songs q = [] \<longrightarrow> addRelatedSong e q = (Inl NO_PLAYING_SONG, q))
   \<and> (songs q = current # rest \<and> \<not> stopped q
        \<and> (unseen (map song_id (previousSongs q)) (getRelatedSong e current) = s # others
            \<or> unseen (map song_id (previousSongs q)) (getRelatedSong e current) = []
              \<and> stream current = Some (Stream False (Some altSong))
              \<and> unseen (map song_id (previousSongs q)) (getRelatedSong e altSong) = s # others)
      \<longrightarrow> song_id s \<notin> song_id ` set (previousSongs q)
        \<and> fst (addRelatedSong e q)
            = Inr (Song (song_id s) (metadata current)
                    (case clientMember e of None \<Rightarrow> member s | Some m \<Rightarrow> Some m) (stream s))
        \<and> songs (snd (addRelatedSong e q))
            = songs q @ [Song (song_id s) (metadata current)
                    (case clientMember e of None \<Rightarrow> member s | Some m \<Rightarrow> Some m) (stream s)])
   \<and> (songs q = current # rest
        \<and> unseen (map song_id (previousSongs q)) (getRelatedSong e current) = []
        \<and> stream current = Some st
        \<and> (playFromSource st \<or> stream_song st = None
            \<or> stream_song st = Some altSong
              \<and> unseen (map song_id (previousSongs q)) (getRelatedSong e altSong) = [])
      \<longrightarrow> fst (addRelatedSong e q) = Inl NO_RELATED)"
proof (intro conjI impI)
  assume "songs q = []"
  then show "addRelatedSong e q = (Inl NO_PLAYING_SONG, q)"
    by (simp add: addRelatedSong_def)
next
  assume a: "songs q = current # rest \<and> \<not> stopped q
        \<and> (unseen (map song_id (previousSongs q)) (getRelatedSong e current) = s # others
            \<or> unseen (map song_id (previousSongs q)) (getRelatedSong e current) = []
              \<and> stream current = Some (Stream False (Some altSong))
              \<and> unseen (map song_id (previousSongs q)) (getRelatedSong e altSong) = s # others)"
  then have "s \<in> set (unseen (map song_id (previousSongs q)) (getRelatedSong e current))
      \<or> s \<in> set (unseen (map song_id (previousSongs q)) (getRelatedSong e altSong))"
    by auto
  then show "song_id s \<notin> song_id ` set (previousSongs q)"
    by (auto simp add: unseen_def)
  from a show "fst (addRelatedSong e q)
            = Inr (Song (song_id s) (metadata current)
                    (case clientMember e of None \<Rightarrow> member s | Some m \<Rightarrow> Some m) (stream s))"
    by (auto simp add: addRelatedSong_def Let_def addRelatedSong_first_cases related_song)
  from a show "songs (snd (addRelatedSong e q))
            = songs q @ [Song (song_id s) (metadata current)
                    (case clientMember e of None \<Rightarrow> member s | Some m \<Rightarrow> Some m) (stream s)]"
    by (auto simp add: addRelatedSong_def Let_def addRelatedSong_first_cases related_song)
next
  assume "songs q = current # rest
        \<and> unseen (map song_id (previousSongs q)) (getRelatedSong e current) = []
        \<and> stream current = Some st
        \<and> (playFromSource st \<or> stream_song st = None
            \<or> stream_song st = Some altSong
              \<and> unseen (map song_id (previousSongs q)) (getRelatedSong e altSong) = [])"
  then show "fst (addRelatedSong e q) = Inl NO_RELATED"
    by (auto simp add: addRelatedSong_def Let_def addRelatedSong_first_cases)
qed

theorem addRelatedSong_selects_witness:
  "addRelatedSong related_env (example_queue\<lparr>songs := []\<rparr>)
     = (Inl NO_PLAYING_SONG, example_queue\<lparr>songs := []\<rparr>)
   \<and> fst (addRelatedSong related_env example_queue)
       = Inr (Song ''x'' (Some ''mix'') (Some ''bot'') (Some (Stream True None)))
   \<and> songs (snd (addRelatedSong related_env example_queue))
       = [song_a, song_b, song_c,
          Song ''x'' (Some ''mix'') (Some ''bot'') (Some (Stream True None))]
   \<and> fst (addRelatedSong memberless_env example_queue)
       = Inr (Song ''b'' (Some ''mix'') (Some ''bob'') (Some (Stream True None)))
   \<and> fst (addRelatedSong retry_env (example_queue\<lparr>songs := [song_c]\<rparr>))
       = Inr (Song ''x'' None (Some ''bot'') (Some (Stream True None)))
   \<and> fst (addRelatedSong related_env (example_queue\<lparr>previousSongs := [song_x]\<rparr>))
       = Inl NO_RELATED"
proof -
  have s: "songs example_queue = [song_a, song_b, song_c]" "\<not> stopped example_queue"
    "previousSongs example_queue = []"
    by (simp_all add: example_queue_def)
  have a: "unseen [] (getRelatedSong related_env song_a) = [song_x]"
    "unseen [''x''] (getRelatedSong related_env song_a) = []"
    "unseen [] (getRelatedSong memberless_env song_a) = [song_b]"
    by (simp_all add: unseen_def related_env_def memberless_env_def song_x_def)
  have b: "unseen [] (getRelatedSong retry_env song_c) = []"
    "stream song_c = Some (Stream False (Some song_b))"
    "unseen [] (getRelatedSong retry_env song_b) = [song_x]"
    by (simp_all add: unseen_def retry_env_def song_c_def song_b_def)
  have c: "song_id song_x = ''x''" "metadata song_a = Some ''mix''" "metadata song_c = None"
    "stream song_x = Some (Stream True None)" "clientMember related_env = Some ''bot''"
    "clientMember retry_env = Some ''bot''" "stream song_a = Some (Stream True None)"
    "clientMember memberless_env = None" "song_id song_b = ''b''"
    "member song_b = Some ''bob''" "stream song_b = Some (Stream True None)"
    by (simp_all add: song_x_def song_a_def song_b_def song_c_def related_env_def
        retry_env_def memberless_env_def)
  note t1 = addRelatedSong_selects [where q = "example_queue\<lparr>songs := []\<rparr>"
      and e = related_env, THEN conjunct1]
  note t2 = addRelatedSong_selects [where q = example_queue and e = related_env
      and current = song_a and rest = "[song_b, song_c]" and s = song_x and others = "[]",
      THEN conjunct2, THEN conjunct1]
  note t3 = addRelatedSong_selects [where q = "example_queue\<lparr>songs := [song_c]\<rparr>"
      and e = retry_env and current = song_c and rest = "[]" and s = song_x
      and others = "[]" and altSong = song_b, THEN conjunct2, THEN conjunct1]
  note t4 = addRelatedSong_selects [where q = "example_queue\<lparr>previousSongs := [song_x]\<rparr>"
      and e = related_env and current = song_a and rest = "[song_b, song_c]"
      and st = "Stream True None", THEN conjunct2, THEN conjunct2]
  note t5 = addRelatedSong_selects [where q = example_queue and e = memberless_env
      and current = song_a and rest = "[song_b, song_c]" and s = song_b and others = "[]",
      THEN conjunct2, THEN conjunct1]
  from t1 t2 t3 t4 t5 show ?thesis by (simp add: s a b c)
qed

text \<open>
  The current song was requested by one member and the client member is another: the
  added song carries the client member.
\<close>

theorem addRelatedSong_member_counterexample:
  "member song_a = Some ''alice''
   \<and> fst (addRelatedSong related_env example_queue)
       = Inr (Song (song_id song_x) (metadata song_a) (Some ''bot'') (stream song_x))
   \<and> fst (addRelatedSong related_env example_queue)
       \<noteq> Inr (Song (song_id song_x) (metadata song_a) (member song_a) (stream song_x))"
  by (simp add: addRelatedSong_def addRelatedSong_first_cases related_song unseen_def Let_def
      example_queue_def related_env_def song_a_def song_x_def)

subsection \<open>After removal\<close>

text \<open>
  Claim C2, as the code has it. After \<open>remove\<close> both lists are empty and
  \<open>stopped\<close> is set. From then on \<open>addToQueue\<close>, \<open>play\<close> and \<open>seek\<close> (with
  a time that is not negative) fail with \<open>QUEUE_STOPPED\<close>. The other methods do not
  read \<open>stopped\<close>: \<open>pause\<close> succeeds, \<open>shuffle\<close> succeeds and leaves the list
  empty, \<open>resume\<close> fails with \<open>RESUMED\<close>, \<open>skip\<close> with \<open>NO_UP_NEXT\<close> (or
  \<open>NO_PLAYING_SONG\<close> under autoplay) and \<open>jump\<close> with \<open>NO_SONG_POSITION\<close>.
\<close>

theorem remove_then_commands:
  "songs (remove q) = [] \<and> previousSongs (remove q) = [] \<and> stopped (remove q)
   \<and> fst (addToQueue song position (remove q)) = Inl QUEUE_STOPPED
   \<and> fst (play emitPlaySong (remove q)) = Inl QUEUE_STOPPED
   \<and> (0 \<le> t \<longrightarrow> fst (seek (Num t) (remove q)) = Inl QUEUE_STOPPED)
   \<and> fst (pause (remove q)) = Inr ()
   \<and> fst (resume (remove q)) = Inl RESUMED
   \<and> fst (skip e (remove q)) = Inl (if autoplay q then NO_PLAYING_SONG else NO_UP_NEXT)
   \<and> fst (shuffle random (remove q)) = Inr ()
   \<and> songs (snd (shuffle random (remove q))) = []
   \<and> fst (jump e position (remove q)) = Inl NO_SONG_POSITION"
proof -
  have fold_call: "\<And>(f :: string \<Rightarrow> call) xs q.
      songs (fold (\<lambda>x. call (f x)) xs q) = songs q
      \<and> previousSongs (fold (\<lambda>x. call (f x)) xs q) = previousSongs q
      \<and> stopped (fold (\<lambda>x. call (f x)) xs q) = stopped q
      \<and> paused (fold (\<lambda>x. call (f x)) xs q) = paused q
      \<and> autoplay (fold (\<lambda>x. call (f x)) xs q) = autoplay q"
  proof -
    fix f :: "string \<Rightarrow> call" and xs q
    show "songs (fold (\<lambda>x. call (f x)) xs q) = songs q
      \<and> previousSongs (fold (\<lambda>x. call (f x)) xs q) = previousSongs q
      \<and> stopped (fold (\<lambda>x. call (f x)) xs q) = stopped q
      \<and> paused (fold (\<lambda>x. call (f x)) xs q) = paused q
      \<and> autoplay (fold (\<lambda>x. call (f x)) xs q) = autoplay q"
      by (induction xs arbitrary: q) simp_all
  qed
  have r: "songs (remove q) = []" "previousSongs (remove q) = []" "stopped (remove q)"
    "\<not> paused (remove q)" "autoplay (remove q) = autoplay q"
    by (simp_all add: remove_def Let_def fold_call split: option.split)
  have j: "fst (jump e position (remove q)) = Inl NO_SONG_POSITION"
    by (cases position) (auto simp add: r jump_def jump_admitted_def Let_def)
  have k: "fst (skip e (remove q)) = Inl (if autoplay q then NO_PLAYING_SONG else NO_UP_NEXT)"
    by (simp add: r skip_def addRelatedSong_def Let_def)
  have s: "fst (shuffle random (remove q)) = Inr ()"
    "songs (snd (shuffle random (remove q))) = []"
    by (simp_all add: r shuffle_def shuffle_admitted_def Let_def)
  have p: "fst (pause (remove q)) = Inr ()" "fst (resume (remove q)) = Inl RESUMED"
    by (simp_all add: r pause_def pause_admitted_def resume_def resume_admitted_def Let_def)
  have a: "fst (addToQueue song position (remove q)) = Inl QUEUE_STOPPED"
    "fst (play emitPlaySong (remove q)) = Inl QUEUE_STOPPED"
    "0 \<le> t \<longrightarrow> fst (seek (Num t) (remove q)) = Inl QUEUE_STOPPED"
    by (simp_all add: r addToQueue_def play_def seek_def)
  from r j k s p a show ?thesis by blast
qed

theorem remove_then_commands_witness:
  "songs (remove example_queue) = [] \<and> stopped (remove example_queue)
   \<and> fst (addToQueue (One song_x) (Num 0) (remove example_queue)) = Inl QUEUE_STOPPED
   \<and> fst (seek (Num 30) (remove example_queue)) = Inl QUEUE_STOPPED
   \<and> fst (resume (remove example_queue)) = Inl RESUMED
   \<and> fst (skip example_env (remove example_queue)) = Inl NO_UP_NEXT
   \<and> fst (jump example_env (Num 1) (remove example_queue)) = Inl NO_SONG_POSITION"
proof -
  have "\<not> autoplay example_queue" by (simp add: example_queue_def)
  with remove_then_commands [where q = example_queue and song = "One song_x"
        and position = "Num 0" and t = 30 and e = example_env]
    remove_then_commands [where q = example_queue and position = "Num 1" and e = example_env]
  show ?thesis by simp
qed

text \<open>After \<open>remove\<close>, \<open>pause\<close> succeeds and sets \<open>paused\<close>.\<close>

theorem pause_after_remove_counterexample:
  "stopped (remove example_queue)
   \<and> fst (pause (remove example_queue)) = Inr ()
   \<and> paused (snd (pause (remove example_queue)))
   \<and> fst (pause (remove example_queue)) \<noteq> Inl QUEUE_STOPPED"
  by (simp add: pause_def pause_admitted_def remove_def Let_def example_queue_def)

subsection \<open>Shuffling\<close>

text \<open>
  Claim C7. \<open>Math.random()\<close> returns numbers from 0 up to, not including, 1. Then
  \<open>shuffle\<close> succeeds; on a non-empty list the song at index 0 is the one that was
  there and the songs after it are a permutation of the songs that were after it; on an
  empty list nothing changes but the two calls of the task queue.
\<close>

theorem shuffle_keeps_playing_song:
  assumes "\<forall>n. 0 \<le> random n \<and> random n < 1"
  shows "fst (shuffle random q) = Inr ()
   \<and> (songs q \<noteq> [] \<longrightarrow>
        songs (snd (shuffle random q)) \<noteq> []
        \<and> hd (songs (snd (shuffle random q))) = hd (songs q)
        \<and> mset (tl (songs (snd (shuffle random q)))) = mset (tl (songs q)))
   \<and> (songs q = [] \<longrightarrow>
        snd (shuffle random q) = q\<lparr>calls := calls q @ [TaskQueue_queuing, TaskQueue_resolve]\<rparr>)"
proof (cases "songs q")
  case Nil
  then show ?thesis by (simp add: shuffle_def shuffle_admitted_def Let_def call_def)
next
  case (Cons first rest)
  have "mset (shuffle_loop random 0 (length rest - 1) rest) = mset rest"
  proof (cases rest)
    case Nil
    then show ?thesis by simp
  next
    case (Cons x xs)
    then have "length rest - 1 < length rest" by simp
    with assms show ?thesis by (rule shuffle_loop_mset)
  qed
  with Cons show ?thesis by (simp add: shuffle_def shuffle_admitted_def Let_def)
qed

theorem shuffle_keeps_playing_song_witness:
  "songs (snd (shuffle example_random (example_queue\<lparr>songs := [song_a, song_b, song_c, song_x]\<rparr>)))
     = [song_a, song_x, song_c, song_b]
   \<and> mset (tl (songs (snd (shuffle example_random
          (example_queue\<lparr>songs := [song_a, song_b, song_c, song_x]\<rparr>)))))
     = mset [song_b, song_c, song_x]
   \<and> snd (shuffle example_random (example_queue\<lparr>songs := []\<rparr>))
     = example_queue\<lparr>songs := [], calls := [TaskQueue_queuing, TaskQueue_resolve]\<rparr>"
proof -
  have r: "\<forall>n. 0 \<le> example_random n \<and> example_random n < 1"
    by (simp add: example_random_def)
  have "songs (snd (shuffle example_random (example_queue\<lparr>songs := [song_a, song_b, song_c, song_x]\<rparr>)))
     = [song_a, song_x, song_c, song_b]"
    by (simp add: shuffle_def shuffle_admitted_def Let_def swap_def example_random_def numeral_2_eq_2)
  moreover have "calls example_queue = []" by (simp add: example_queue_def)
  moreover note
    shuffle_keeps_playing_song [OF r, of "example_queue\<lparr>songs := [song_a, song_b, song_c, song_x]\<rparr>",
      THEN conjunct2, THEN conjunct1]
    shuffle_keeps_playing_song [OF r, of "example_queue\<lparr>songs := []\<rparr>",
      THEN conjunct2, THEN conjunct2]
  ultimately show ?thesis by simp
qed

subsection \<open>Repeat mode\<close>

text \<open>
  What \<open>setRepeatMode\<close> does with \<open>undefined\<close>, with a member of the enum, and with
  an argument that is neither a value nor a key of the enum object.
\<close>

lemma setRepeatMode_modes:
  "(repeatMode q = DISABLED \<longrightarrow>
      setRepeatMode Undefined q = (Inr SONG, q\<lparr>repeatMode := SONG\<rparr>))
   \<and> (repeatMode q = SONG \<longrightarrow>
        setRepeatMode Undefined q = (Inr QUEUE, q\<lparr>repeatMode := QUEUE\<rparr>))
   \<and> (repeatMode q = QUEUE \<longrightarrow>
        setRepeatMode Undefined q = (Inr DISABLED, q\<lparr>repeatMode := DISABLED\<rparr>))
   \<and> (m \<in> {DISABLED, SONG, QUEUE} \<and> repeatMode q = m \<longrightarrow>
        setRepeatMode (Mode m) q = (Inr DISABLED, q\<lparr>repeatMode := DISABLED\<rparr>))
   \<and> (m \<in> {DISABLED, SONG, QUEUE} \<and> repeatMode q \<noteq> m \<longrightarrow>
        setRepeatMode (Mode m) q = (Inr m, q\<lparr>repeatMode := m\<rparr>))
   \<and> (m \<notin> {DISABLED, SONG, QUEUE} \<and> m \<notin> range Key \<longrightarrow>
        setRepeatMode (Mode m) q = (Inl INVALID_TYPE, q))
   \<and> setRepeatMode Other q = (Inl INVALID_TYPE, q)"
proof -
  have k: "\<And>k. k \<in> {DISABLED_key, SONG_key, QUEUE_key}"
  proof -
    fix k show "k \<in> {DISABLED_key, SONG_key, QUEUE_key}" by (cases k) simp_all
  qed
  have "m \<notin> {DISABLED, SONG, QUEUE} \<and> m \<notin> range Key \<longrightarrow>
        setRepeatMode (Mode m) q = (Inl INVALID_TYPE, q)"
    by (cases m) (auto simp add: setRepeatMode_def includes_arg_def RepeatMode_values_def)
  then show ?thesis
    by (auto simp add: setRepeatMode_def includes_arg_def successor_def remainder_def
        ToIntegerOrInfinity_def RepeatMode_values_def DISABLED_def SONG_def QUEUE_def)
qed

text \<open>
  Claim C6. The claim has every argument that is not one of the three enum values fail
  with \<open>INVALID_TYPE\<close>, the mode staying as it was. The guard of the method lets the keys
  of the enum through: given the string \<open>SONG\<close> on a queue whose mode is DISABLED, the
  method succeeds and stores the string as the mode, and the next call without an argument
  makes the mode \<open>NaN\<close>.
\<close>

theorem setRepeatMode_key:
  "setRepeatMode (Mode (Key SONG_key)) example_queue
     = (Inr (Key SONG_key), example_queue\<lparr>repeatMode := Key SONG_key\<rparr>)
   \<and> fst (setRepeatMode (Mode (Key SONG_key)) example_queue) \<noteq> Inl INVALID_TYPE
   \<and> repeatMode (snd (setRepeatMode (Mode (Key SONG_key)) example_queue))
       \<noteq> repeatMode example_queue
   \<and> fst (setRepeatMode Undefined (example_queue\<lparr>repeatMode := Key SONG_key\<rparr>))
       = Inr (Number NaN)"
  by (simp add: setRepeatMode_def includes_arg_def successor_def RepeatMode_values_def
      example_queue_def DISABLED_def)

subsection \<open>Autoplay\<close>

text \<open>
  Claim C9. \<open>toggleAutoplay\<close> has no failing path, on a stopped queue either: it
  returns the negated flag, changes nothing but the flag, and applied twice gives the
  queue back.
\<close>

theorem toggleAutoplay_involution:
  "fst (toggleAutoplay q) = (\<not> autoplay q)
   \<and> snd (toggleAutoplay q) = q\<lparr>autoplay := \<not> autoplay q\<rparr>
   \<and> snd (toggleAutoplay (snd (toggleAutoplay q))) = q"
  by (simp add: toggleAutoplay_def)

theorem toggleAutoplay_involution_witness:
  "stopped (remove example_queue)
   \<and> fst (toggleAutoplay (remove example_queue)) = True
   \<and> snd (toggleAutoplay (snd (toggleAutoplay (remove example_queue)))) = remove example_queue"
proof -
  note t = toggleAutoplay_involution [of "remove example_queue"]
  have "stopped (remove example_queue)" and "\<not> autoplay (remove example_queue)"
    by (simp_all add: remove_def example_queue_def call_def)
  with t [THEN conjunct1] t [THEN conjunct2, THEN conjunct2] show ?thesis by simp
qed

subsection \<open>Going back\<close>

text \<open>
  Claim C10. With \<open>savePreviousSongs\<close> on and the repeat mode QUEUE, \<open>previous\<close>
  succeeds whatever \<open>previousSongs\<close> holds: it returns the last element of \<open>songs\<close>,
  and \<open>undefined\<close> when \<open>songs\<close> is empty.
\<close>

theorem previous_repeat_queue:
  assumes "savePreviousSongs e" and "repeatMode q = QUEUE"
  shows "fst (previous e q) = Inr (if songs q = [] then None else Some (last (songs q)))"
  using assms
  by (simp add: previous_def previous_admitted_def QUEUE_def call_def Let_def index_last)

theorem previous_repeat_queue_witness:
  "fst (previous example_env (example_queue\<lparr>songs := [], repeatMode := QUEUE\<rparr>)) = Inr None"
proof -
  have "savePreviousSongs example_env" by (simp add: example_env_def)
  moreover have "repeatMode (example_queue\<lparr>songs := [], repeatMode := QUEUE\<rparr>) = QUEUE" by simp
  ultimately show ?thesis
    using previous_repeat_queue [of example_env "example_queue\<lparr>songs := [], repeatMode := QUEUE\<rparr>"]
    by simp
qed

subsection \<open>The task queue\<close>

text \<open>
  A method's pieces do the same to the fields of the queue whatever calls are already in
  the log.
\<close>

lemma behind_simps [simp]:
  "songs (behind cs q) = songs q" "previousSongs (behind cs q) = previousSongs q"
  "stopped (behind cs q) = stopped q" "paused (behind cs q) = paused q"
  "autoplay (behind cs q) = autoplay q" "repeatMode (behind cs q) = repeatMode q"
  "playing (behind cs q) = playing q" "q_next (behind cs q) = q_next q"
  "q_prev (behind cs q) = q_prev q" "q_listeners (behind cs q) = q_listeners q"
  "queue_id (behind cs q) = queue_id q" "q_beginTime (behind cs q) = q_beginTime q"
  "calls (behind cs q) = cs @ calls q"
  by (simp_all add: behind_def)

lemma behind_call: "call c (behind cs q) = behind cs (call c q)"
  by (simp add: behind_def call_def)

lemma behind_updates:
  "(behind cs q)\<lparr>songs := a\<rparr> = behind cs (q\<lparr>songs := a\<rparr>)"
  "(behind cs q)\<lparr>previousSongs := a\<rparr> = behind cs (q\<lparr>previousSongs := a\<rparr>)"
  "(behind cs q)\<lparr>paused := b\<rparr> = behind cs (q\<lparr>paused := b\<rparr>)"
  "(behind cs q)\<lparr>playing := b\<rparr> = behind cs (q\<lparr>playing := b\<rparr>)"
  "(behind cs q)\<lparr>stopped := b\<rparr> = behind cs (q\<lparr>stopped := b\<rparr>)"
  "(behind cs q)\<lparr>q_next := b\<rparr> = behind cs (q\<lparr>q_next := b\<rparr>)"
  "(behind cs q)\<lparr>q_prev := b\<rparr> = behind cs (q\<lparr>q_prev := b\<rparr>)"
  by (simp_all add: behind_def)

lemmas behind_out = behind_call behind_updates

lemma pause_admitted_behind:
  "pause_admitted (behind cs q) = (fst (pause_admitted q), behind cs (snd (pause_admitted q)))"
  by (simp add: pause_admitted_def Let_def behind_out)

lemma resume_admitted_behind:
  "resume_admitted (behind cs q) = (fst (resume_admitted q), behind cs (snd (resume_admitted q)))"
  by (simp add: resume_admitted_def Let_def behind_out)

lemma previous_admitted_behind:
  "previous_admitted e (behind cs q)
     = (fst (previous_admitted e q), behind cs (snd (previous_admitted e q)))"
  by (simp add: previous_admitted_def Let_def QUEUE_def behind_out)

lemma shuffle_admitted_behind:
  "shuffle_admitted random (behind cs q)
     = (fst (shuffle_admitted random q), behind cs (snd (shuffle_admitted random q)))"
  by (simp add: shuffle_admitted_def Let_def behind_out split: list.split)

lemma jump_admitted_behind:
  "jump_admitted e position (behind cs q)
     = (fst (jump_admitted e position q), behind cs (snd (jump_admitted e position q)))"
  by (simp add: jump_admitted_def Let_def split_beta behind_out split: number.split)

lemma fold_Voice_off_behind:
  "fold (\<lambda>event. call (Voice_off event)) events (behind cs q)
     = behind cs (fold (\<lambda>event. call (Voice_off event)) events q)"
  by (induction events arbitrary: q) (simp_all add: behind_out)

lemma remove_behind: "remove (behind cs q) = behind cs (remove q)"
  by (simp add: remove_def Let_def behind_out fold_Voice_off_behind split: option.split)

lemma stop_admitted_behind: "stop_admitted (behind cs q) = behind cs (stop_admitted q)"
  by (simp add: stop_admitted_def Let_def behind_out remove_behind)

lemma skip_next_behind:
  "skip_next (behind cs q) = (fst (skip_next q), behind cs (snd (skip_next q)))"
  by (simp add: skip_next_def behind_out)

lemma addRelatedSong_first_behind:
  "addRelatedSong_first e current rel (behind cs q)
     = (fst (addRelatedSong_first e current rel q),
        behind cs (snd (addRelatedSong_first e current rel q)))"
  by (cases rel; cases "stopped q") (simp_all add: addRelatedSong_first_cases behind_out)

lemma skip_returns_behind:
  "skip_returns (behind cs q) = (fst (skip_returns q), behind cs (snd (skip_returns q)))"
  by (simp add: skip_returns_def skip_next_def returns_def next_reply_def behind_out)

lemma skip_admitted_behind:
  "skip_admitted e (behind cs q)
     = (fst (skip_admitted e q), behind cs (snd (skip_admitted e q)))"
  by (simp add: skip_admitted_def skip_returns_behind behind_out split: list.split)

lemma skip_resumed_behind:
  "skip_resumed e p (behind cs q)
     = (fst (skip_resumed e p q), behind cs (snd (skip_resumed e p q)))"
  by (simp add: skip_resumed_def Let_def added_def skip_returns_behind
      addRelatedSong_first_behind behind_out split: pc.split option.split sum.split)

lemma proceed_behind:
  "proceed e c p (behind cs q) = (fst (proceed e c p q), behind cs (snd (proceed e c p q)))"
  by (cases p; cases c)
    (simp_all add: proceed_def returns_def this_reply_def next_reply_def
      pause_admitted_behind resume_admitted_behind previous_admitted_behind
      shuffle_admitted_behind jump_admitted_behind stop_admitted_behind
      skip_admitted_behind skip_resumed_behind)

text \<open>
  Every piece brings a command nearer to its return, so a command run alone returns after
  at most four pieces.
\<close>

lemma returned_simps [simp]:
  "returned (Returned r)" "\<not> returned Queued" "\<not> returned (Related1 a b)"
  "\<not> returned (Related2 a b c)" "\<not> returned (Added x)"
  by (simp_all add: returned_def)

lemma rank_simps [simp]:
  "rank Queued = 4" "rank (Related1 a b) = 3" "rank (Related2 a b c) = 2"
  "rank (Added x) = 1" "rank (Returned r) = 0"
  by (simp_all add: rank_def)

lemma returned_rank: "returned p \<longleftrightarrow> rank p = 0"
  by (cases p) simp_all

lemma rank_added [simp]: "rank (fst (added x)) = 1"
  by (simp add: added_def)

lemma rank_returns [simp]: "rank (fst (returns x)) = 0"
  by (simp add: returns_def)

lemma rank_skip_returns [simp]: "rank (fst (skip_returns q)) = 0"
  by (simp add: skip_returns_def split_beta)

lemma proceed_rank: "\<not> returned p \<Longrightarrow> rank (fst (proceed e c p q)) < rank p"
  by (cases p; cases c)
    (simp_all add: proceed_def skip_admitted_def skip_resumed_def Let_def
      split: list.split option.split sum.split)

lemma proceed_Returned [simp]: "proceed e c (Returned r) q = (Returned r, q)"
  by (simp add: proceed_def)

lemma go_Returned [simp]: "go n e c (Returned r, q) = (Returned r, q)"
  by (induction n) simp_all

lemma go_more: "rank p \<le> n \<Longrightarrow> go (Suc n) e c (p, q) = go n e c (p, q)"
proof (induction n arbitrary: p q)
  case 0
  then have "returned p" by (simp add: returned_rank)
  then obtain r where "p = Returned r" by (cases p) simp_all
  then show ?case by simp
next
  case (Suc n)
  show ?case
  proof (cases "returned p")
    case True
    then obtain r where "p = Returned r" by (cases p) simp_all
    then show ?thesis by simp
  next
    case False
    obtain p' q' where s: "proceed e c p q = (p', q')" by (cases "proceed e c p q")
    with proceed_rank [OF False, of e c q] Suc.prems have "rank p' \<le> n" by simp
    then have "go (Suc n) e c (p', q') = go n e c (p', q')" by (rule Suc.IH)
    with s show ?thesis by simp
  qed
qed

lemma go_returned: "rank p \<le> n \<Longrightarrow> returned (fst (go n e c (p, q)))"
proof (induction n arbitrary: p q)
  case 0
  then show ?case by (simp add: returned_rank)
next
  case (Suc n)
  show ?case
  proof (cases "returned p")
    case True
    then obtain r where "p = Returned r" by (cases p) simp_all
    then show ?thesis by simp
  next
    case False
    obtain p' q' where s: "proceed e c p q = (p', q')" by (cases "proceed e c p q")
    with proceed_rank [OF False, of e c q] Suc.prems have "rank p' \<le> n" by simp
    then have "returned (fst (go n e c (p', q')))" by (rule Suc.IH)
    with s show ?thesis by simp
  qed
qed

lemma rank_le_4: "rank p \<le> 4"
  by (cases p) simp_all

lemma finish_returned: "returned (fst (finish e c (p, q)))"
  unfolding finish_def by (rule go_returned) (rule rank_le_4)

lemma finish_Returned [simp]: "finish e c (Returned r, q) = (Returned r, q)"
  by (simp add: finish_def)

lemma finish_proceed:
  assumes "\<not> returned p"
  shows "finish e c (proceed e c p q) = finish e c (p, q)"
proof -
  obtain p' q' where s: "proceed e c p q = (p', q')" by (cases "proceed e c p q")
  with proceed_rank [OF assms, of e c q] rank_le_4 [of p] have "rank p' \<le> 3" by simp
  then have "go (Suc 3) e c (p', q') = go 3 e c (p', q')" by (rule go_more)
  moreover have "go 4 e c (p, q) = go 3 e c (p', q')"
    using s by (simp add: numeral_Bit0 numeral_Bit1 eval_nat_numeral)
  ultimately show ?thesis using s by (simp add: finish_def eval_nat_numeral)
qed

text \<open>
  A piece calls \<open>_taskQueue.resolve()\<close> once, as its last call, when the command
  returns with it, on a \<open>throw\<close> too, and makes no call of the task queue
  otherwise.
\<close>

lemma extendsI:
  "calls q' = calls q @ mid @ (if released then [TaskQueue_resolve] else []) \<Longrightarrow> quiet mid
     \<Longrightarrow> extends q q' released"
  by (auto simp add: extends_def)

lemma quiet_simps [simp]:
  "quiet []" "quiet (c # cs) \<longleftrightarrow> c \<noteq> TaskQueue_queuing \<and> c \<noteq> TaskQueue_resolve \<and> quiet cs"
  "quiet (cs @ ds) \<longleftrightarrow> quiet cs \<and> quiet ds"
  by (auto simp add: quiet_def)

lemma extends_refl: "extends q q False"
  by (rule extendsI [where mid = "[]"]) simp_all

lemma extends_call:
  "c \<noteq> TaskQueue_queuing \<Longrightarrow> c \<noteq> TaskQueue_resolve \<Longrightarrow> extends q q' False
     \<Longrightarrow> extends q (call c q') False"
  by (auto simp add: extends_def intro: exI [where x = "mid @ [c]" for mid])

lemma extends_resolve: "extends q q' False \<Longrightarrow> extends q (call TaskQueue_resolve q') True"
  by (auto simp add: extends_def)

lemma extends_trans: "extends q q' False \<Longrightarrow> extends q' q'' b \<Longrightarrow> extends q q'' b"
  by (auto simp add: extends_def intro: exI [where x = "m1 @ m2" for m1 m2])

lemma extends_update:
  "extends q (q'\<lparr>songs := a\<rparr>) b = extends q q' b"
  "extends q (q'\<lparr>previousSongs := a\<rparr>) b = extends q q' b"
  "extends q (q'\<lparr>paused := c\<rparr>) b = extends q q' b"
  "extends q (q'\<lparr>q_next := c\<rparr>) b = extends q q' b"
  "extends q (q'\<lparr>q_prev := c\<rparr>) b = extends q q' b"
  by (simp_all add: extends_def)

lemmas extends_intros = extends_resolve extends_call extends_refl

lemma pause_admitted_extends: "extends q (snd (pause_admitted q)) True"
  by (simp add: pause_admitted_def Let_def extends_intros extends_update)

lemma resume_admitted_extends: "extends q (snd (resume_admitted q)) True"
  by (simp add: resume_admitted_def Let_def extends_intros extends_update)

lemma previous_admitted_extends: "extends q (snd (previous_admitted e q)) True"
  by (simp add: previous_admitted_def Let_def extends_intros extends_update)

lemma shuffle_admitted_extends: "extends q (snd (shuffle_admitted random q)) True"
  by (simp add: shuffle_admitted_def Let_def extends_intros extends_update split: list.split)

lemma jump_admitted_extends: "extends q (snd (jump_admitted e position q)) True"
  by (simp add: jump_admitted_def Let_def split_beta extends_intros extends_update
      split: number.split)

lemma remove_extends: "extends q (remove q) False"
proof -
  obtain mid where "calls (remove q) = calls q @ mid"
    and "TaskQueue_queuing \<notin> set mid" and "TaskQueue_resolve \<notin> set mid"
    using remove_calls by blast
  then show ?thesis by (intro extendsI [where mid = mid]) (simp_all add: quiet_def)
qed

lemma stop_admitted_extends: "extends q (stop_admitted q) True"
  unfolding stop_admitted_def Let_def
  by (intro extends_resolve extends_trans [OF _ remove_extends] extends_call extends_refl)
    simp_all

lemma skip_next_extends: "extends q (snd (skip_next q)) False"
  by (simp add: skip_next_def extends_intros extends_update)

lemma skip_returns_extends: "extends q (snd (skip_returns q)) True"
  by (simp add: skip_returns_def skip_next_def returns_def next_reply_def extends_intros
      extends_update)

lemma addRelatedSong_first_extends:
  "extends q q' False \<Longrightarrow> extends q (snd (addRelatedSong_first e current rel q')) False"
  by (cases rel; cases "stopped q'") (simp_all add: addRelatedSong_first_cases extends_update)

lemma returned_skip_returns [simp]: "returned (fst (skip_returns q))"
  by (simp add: skip_returns_def split_beta returns_def)

lemma skip_admitted_extends:
  "extends q (snd (skip_admitted e q)) (returned (fst (skip_admitted e q)))"
  by (simp add: skip_admitted_def extends_intros skip_returns_extends split: list.split)

lemma added_simps [simp]: "fst (added x) = Added (fst x)" "snd (added x) = snd x"
  by (simp_all add: added_def)

lemma skip_resumed_extends:
  "\<not> returned p \<Longrightarrow> p \<noteq> Queued
     \<Longrightarrow> extends q (snd (skip_resumed e p q)) (returned (fst (skip_resumed e p q)))"
  by (cases p)
    (simp_all add: skip_resumed_def Let_def extends_intros skip_returns_extends
      addRelatedSong_first_extends split: option.split sum.split)

lemma returns_simps [simp]: "fst (returns x) = Returned (fst x)" "snd (returns x) = snd x"
  by (simp_all add: returns_def)

lemma reply_simps [simp]: "snd (this_reply x) = snd x" "snd (next_reply y) = snd y"
  by (simp_all add: this_reply_def next_reply_def split_beta)

lemma proceed_extends:
  "\<not> returned p \<Longrightarrow> extends q (snd (proceed e c p q)) (returned (fst (proceed e c p q)))"
proof (cases "p = Queued")
  case True
  then show ?thesis
    by (cases c)
      (simp_all add: proceed_def pause_admitted_extends resume_admitted_extends
        previous_admitted_extends shuffle_admitted_extends jump_admitted_extends
        stop_admitted_extends skip_admitted_extends)
next
  case False
  assume "\<not> returned p"
  with False have "proceed e c p q = skip_resumed e p q"
    by (cases p) (simp_all add: proceed_def)
  with False \<open>\<not> returned p\<close> show ?thesis
    by (simp add: skip_resumed_extends)
qed

lemma fold_react_quiet: "quiet cs \<Longrightarrow> fold (react i) cs tq = tq"
  by (induction cs arbitrary: tq) (simp_all add: react_def)

lemma extends_tasks:
  "extends q q' b \<Longrightarrow> fold (react i) (made q q') tq = (if b then resolve tq else tq)"
  by (auto simp add: extends_def made_def fold_react_quiet react_def)

lemma proceed_tasks:
  "\<not> returned p \<Longrightarrow> fold (react i) (made q (snd (proceed e c p q))) tq
     = (if returned (fst (proceed e c p q)) then resolve tq else tq)"
  by (rule extends_tasks) (rule proceed_extends)

text \<open>
  A command run alone from its call, piece after piece, does what the method does.
\<close>

lemma finish_fixed: "returned (fst x) \<Longrightarrow> finish e c x = x"
  by (cases x; cases "fst x") simp_all

lemma finish_once:
  "\<not> returned p \<Longrightarrow> returned (fst (proceed e c p q))
     \<Longrightarrow> finish e c (p, q) = proceed e c p q"
  by (simp add: finish_proceed [symmetric] finish_fixed)

lemma finish_added:
  "finish e Skip (added x)
     = (case fst x of
          Inl err \<Rightarrow> (Returned (Inl err), call TaskQueue_resolve (snd x))
        | Inr song \<Rightarrow> skip_returns (snd x))"
proof -
  have "finish e Skip (added x) = proceed e Skip (Added (fst x)) (snd x)"
    unfolding added_def
    by (rule finish_once) (simp_all add: proceed_def skip_resumed_def split: sum.split)
  then show ?thesis by (simp add: proceed_def skip_resumed_def)
qed

lemma finish_Related2:
  "finish e Skip (Related2 current prevIds altSong, q)
     = finish e Skip (added (addRelatedSong_first e current
          (unseen prevIds (getRelatedSong e altSong)) (call Debug q)))"
  by (simp add: finish_proceed [symmetric] proceed_def skip_resumed_def)

lemma finish_Related1:
  assumes "songs q = current # rest"
  shows "finish e Skip (Related1 current (map song_id (previousSongs q)),
            call (GetRelatedSong current) q)
         = finish e Skip (added (addRelatedSong e q))"
proof -
  have "finish e Skip (Related1 current (map song_id (previousSongs q)),
            call (GetRelatedSong current) q)
        = finish e Skip (skip_resumed e (Related1 current (map song_id (previousSongs q)))
            (call (GetRelatedSong current) q))"
    by (simp add: finish_proceed [symmetric] proceed_def)
  also have "\<dots> = finish e Skip (added (addRelatedSong e q))"
    using assms
    by (simp add: skip_resumed_def addRelatedSong_def Let_def finish_Related2 added_def
        call_def split: option.split)
  finally show ?thesis .
qed

lemma skip_tail:
  "(case fst x of Inl err \<Rightarrow> (Returned (Inl err), call TaskQueue_resolve (snd x))
    | Inr song \<Rightarrow> skip_returns (snd x))
   = returns (next_reply
       (let (r, q') = (case x of (Inl err, q1) \<Rightarrow> (Inl err, q1) | (Inr _, q1) \<Rightarrow> skip_next q1)
        in (r, call TaskQueue_resolve q')))"
  by (cases x; cases "fst x")
    (simp_all add: skip_returns_def returns_def next_reply_def split_beta skip_next_def)

lemma finish_skip: "finish e Skip (start Skip q) = returns (next_reply (skip e q))"
proof -
  let ?q = "call TaskQueue_queuing q"
  have step: "finish e Skip (start Skip q) = finish e Skip (skip_admitted e ?q)"
    by (simp add: start_def finish_proceed [symmetric] proceed_def)
  show ?thesis
  proof (cases "length (songs ?q) \<le> 1")
    case False
    then show ?thesis
      unfolding step
      by (simp add: skip_admitted_def finish_fixed skip_def Let_def skip_returns_def split_beta)
  next
    case short: True
    show ?thesis
    proof (cases "autoplay ?q")
      case False
      with short show ?thesis
        unfolding step
        by (simp add: skip_admitted_def skip_def Let_def returns_def next_reply_def)
    next
      case auto: True
      have "finish e Skip (skip_admitted e ?q) = finish e Skip (added (addRelatedSong e ?q))"
      proof (cases "songs ?q")
        case Nil
        with short auto show ?thesis
          by (simp add: skip_admitted_def addRelatedSong_def added_def)
      next
        case (Cons current rest)
        with short auto show ?thesis
          using finish_Related1 [OF Cons, of e] by (simp add: skip_admitted_def)
      qed
      with short auto show ?thesis
        unfolding step
        by (simp add: finish_added skip_tail skip_def Let_def)
    qed
  qed
qed

lemma finish_start: "finish e c (start c q) = returns (sequential e c q)"
proof (cases c)
  case Skip
  then show ?thesis by (simp add: finish_skip sequential_def)
qed (simp_all add: start_def finish_once proceed_def sequential_def pause_def resume_def
    previous_def shuffle_def jump_def stop_def returns_def)

lemma fields_behind [simp]: "fields (behind cs q) = fields q"
  by (simp add: fields_def behind_def)

lemma behind_fields: "behind (calls q) (fields q) = q"
  by (simp add: fields_def behind_def)

lemma proceed_fields:
  assumes "fields q = fields q'"
  shows "fst (proceed e c p q) = fst (proceed e c p q')"
    and "fields (snd (proceed e c p q)) = fields (snd (proceed e c p q'))"
proof -
  have "proceed e c p q = proceed e c p (behind (calls q) (fields q))"
    by (simp add: behind_fields)
  moreover have "proceed e c p q' = proceed e c p (behind (calls q') (fields q))"
    using assms by (simp add: behind_fields)
  ultimately show "fst (proceed e c p q) = fst (proceed e c p q')"
    and "fields (snd (proceed e c p q)) = fields (snd (proceed e c p q'))"
    by (simp_all add: proceed_behind)
qed

lemma go_fields:
  "fields q = fields q' \<Longrightarrow>
     fst (go n e c (p, q)) = fst (go n e c (p, q'))
     \<and> fields (snd (go n e c (p, q))) = fields (snd (go n e c (p, q')))"
proof (induction n arbitrary: p q q')
  case 0
  then show ?case by simp
next
  case (Suc n)
  from proceed_fields [OF Suc.prems, of e c p]
  obtain p1 q1 q1' where "proceed e c p q = (p1, q1)" "proceed e c p q' = (p1, q1')"
    "fields q1 = fields q1'"
    by (cases "proceed e c p q"; cases "proceed e c p q'") simp
  then show ?case using Suc.IH [of q1 q1' p1] by simp
qed

lemma finish_fields:
  "fields q = fields q' \<Longrightarrow>
     fst (finish e c (p, q)) = fst (finish e c (p, q'))
     \<and> fields (snd (finish e c (p, q))) = fields (snd (finish e c (p, q')))"
  unfolding finish_def by (rule go_fields)

lemma fields_call [simp]: "fields (call c q) = fields q"
  by (simp add: fields_def call_def)

lemma sequential_fields:
  assumes "fields q = fields q'"
  shows "fst (sequential e c q) = fst (sequential e c q')"
    and "fields (snd (sequential e c q)) = fields (snd (sequential e c q'))"
proof -
  have "fields (call TaskQueue_queuing q) = fields (call TaskQueue_queuing q')"
    using assms by simp
  from finish_fields [OF this, of e c Queued]
  have "fst (finish e c (start c q)) = fst (finish e c (start c q'))
    \<and> fields (snd (finish e c (start c q))) = fields (snd (finish e c (start c q')))"
    by (simp add: start_def)
  then show "fst (sequential e c q) = fst (sequential e c q')"
    and "fields (snd (sequential e c q)) = fields (snd (sequential e c q'))"
    by (simp_all add: finish_start)
qed

text \<open>
  Every step of a system keeps it related to the run of its commands one after another.
\<close>

lemma in_turn_snoc:
  "in_turn e (cs @ [c]) q
     = (fst (in_turn e cs q) @ [fst (sequential e c (snd (in_turn e cs q)))],
        snd (sequential e c (snd (in_turn e cs q))))"
  by (induction cs arbitrary: q) (simp_all add: split_beta)

lemma run_snoc:
  "run e (as @ [a]) s = (case run e as s of None \<Rightarrow> None | Some s' \<Rightarrow> exec e a s')"
  by (induction as arbitrary: s) (simp_all split: option.split)

lemma serial_initial: "serial e q0 (initial q0) 0"
  by (simp add: serial_def initial_def)

lemma finish_queued:
  assumes "fields q = fields q'"
  shows "fst (finish e c (Queued, q)) = Returned (fst (sequential e c q'))"
    and "fields (snd (finish e c (Queued, q))) = fields (snd (sequential e c q'))"
proof -
  have "fields q = fields (call TaskQueue_queuing q')" using assms by simp
  from finish_fields [OF this, of e c Queued]
  show "fst (finish e c (Queued, q)) = Returned (fst (sequential e c q'))"
    and "fields (snd (finish e c (Queued, q))) = fields (snd (sequential e c q'))"
    using finish_start [of e c q'] by (simp_all add: start_def)
qed

lemma exec_Issue:
  "exec e (Issue c) s
     = Some (s\<lparr>shared := call TaskQueue_queuing (shared s),
               tasks := tasks s @ [length (cmds s)],
               cmds := cmds s @ [c], pcs := pcs s @ [Queued]\<rparr>)"
  by (simp add: exec_def start_def made_def call_def react_def queuing_def)

lemma serial_Issue:
  assumes inv: "serial e q0 s k" and ex: "exec e (Issue c) s = Some s'"
  shows "serial e q0 s' k"
proof -
  let ?n = "length (cmds s)"
  let ?qk = "snd (in_turn e (take k (cmds s)) q0)"
  from ex have s': "s' = s\<lparr>shared := call TaskQueue_queuing (shared s),
      tasks := tasks s @ [?n], cmds := cmds s @ [c], pcs := pcs s @ [Queued]\<rparr>"
    by (simp add: exec_Issue)
  from inv have k: "k \<le> ?n" and len: "length (pcs s) = ?n" and t: "tasks s = [k..<?n]"
    and fin: "take k (pcs s) = map Returned (fst (in_turn e (take k (cmds s)) q0))"
    and waiting: "\<And>i. k < i \<Longrightarrow> i < ?n \<Longrightarrow> pcs s ! i = Queued"
    by (simp_all add: serial_def)
  have 1: "k \<le> length (cmds s')" "length (pcs s') = length (cmds s')"
    using k len by (simp_all add: s')
  have 2: "tasks s' = [k..<length (cmds s')]" using k t by (simp add: s')
  have tk: "take k (cmds s') = take k (cmds s)" using k by (simp add: s')
  have 3: "take k (pcs s') = map Returned (fst (in_turn e (take k (cmds s')) q0))"
    using k len fin by (simp add: s')
  have 4: "\<forall>i. k < i \<and> i < length (cmds s') \<longrightarrow> pcs s' ! i = Queued"
    using waiting len by (auto simp add: s' nth_append less_Suc_eq)
  have 5: "k \<noteq> length (cmds s')" "k < length (cmds s')" using k by (simp_all add: s')
  have 6: "\<not> returned (pcs s' ! k)
     \<and> (pcs s' ! k = Queued \<longrightarrow> fields (shared s') = fields ?qk)
     \<and> fst (finish e (cmds s' ! k) (pcs s' ! k, shared s'))
         = Returned (fst (sequential e (cmds s' ! k) ?qk))
     \<and> fields (snd (finish e (cmds s' ! k) (pcs s' ! k, shared s')))
         = fields (snd (sequential e (cmds s' ! k) ?qk))"
  proof (cases "k = ?n")
    case True
    with inv have f: "fields (shared s) = fields ?qk" by (simp add: serial_def)
    then have f': "fields (call TaskQueue_queuing (shared s)) = fields ?qk" by simp
    from True len show ?thesis
      using finish_queued [OF f', of e c] f by (simp add: s' nth_append)
  next
    case False
    with k have lt: "k < ?n" by simp
    with inv have a: "\<not> returned (pcs s ! k)"
      and b: "pcs s ! k = Queued \<longrightarrow> fields (shared s) = fields ?qk"
      and c: "fst (finish e (cmds s ! k) (pcs s ! k, shared s))
               = Returned (fst (sequential e (cmds s ! k) ?qk))"
      and d: "fields (snd (finish e (cmds s ! k) (pcs s ! k, shared s)))
               = fields (snd (sequential e (cmds s ! k) ?qk))"
      by (simp_all add: serial_def)
    have "fields (call TaskQueue_queuing (shared s)) = fields (shared s)" by simp
    from finish_fields [OF this, of e "cmds s ! k" "pcs s ! k"] a b c d lt len
    show ?thesis by (simp add: s' nth_append)
  qed
  show ?thesis
    unfolding serial_def using 1 2 3 4 5 6 by (simp add: tk)
qed

lemma admitted_upt: "admitted i [k..<n] \<longleftrightarrow> i = k \<and> k < n"
  by (cases "k < n") (auto simp add: admitted_def upt_conv_Cons)

lemma serial_runnable:
  assumes inv: "serial e q0 s k" and i: "i < length (cmds s)" and r: "runnable i s"
  shows "i = k"
proof -
  from inv have t: "tasks s = [k..<length (cmds s)]"
    and fin: "take k (pcs s) = map Returned (fst (in_turn e (take k (cmds s)) q0))"
    and waiting: "\<And>i. k < i \<Longrightarrow> i < length (cmds s) \<Longrightarrow> pcs s ! i = Queued"
    and len: "length (pcs s) = length (cmds s)"
    by (simp_all add: serial_def)
  have "\<not> i < k"
  proof
    assume "i < k"
    then have "pcs s ! i = take k (pcs s) ! i" by simp
    also have "\<dots> = map Returned (fst (in_turn e (take k (cmds s)) q0)) ! i"
      by (simp only: fin)
    also have "\<dots> = Returned (fst (in_turn e (take k (cmds s)) q0) ! i)"
    proof (rule nth_map)
      have "length (map Returned (fst (in_turn e (take k (cmds s)) q0))) = length (take k (pcs s))"
        by (simp only: fin)
      with \<open>i < k\<close> i len show "i < length (fst (in_turn e (take k (cmds s)) q0))" by simp
    qed
    finally show False using r by (simp add: runnable_def)
  qed
  moreover have "\<not> k < i"
  proof
    assume "k < i"
    with waiting i have "pcs s ! i = Queued" by simp
    with r have "admitted i (tasks s)" by (simp add: runnable_def)
    with t \<open>k < i\<close> show False by (simp add: admitted_upt)
  qed
  ultimately show ?thesis by simp
qed

lemma serial_progress:
  assumes inv: "serial e q0 s k" and lt: "k < length (cmds s)"
  shows "runnable k s"
proof -
  from inv lt have "\<not> returned (pcs s ! k)" and "tasks s = [k..<length (cmds s)]"
    by (simp_all add: serial_def)
  with lt show ?thesis
    by (cases "pcs s ! k") (simp_all add: runnable_def admitted_upt)
qed

lemma resolve_upt: "resolve [k..<n] = [Suc k..<n]"
  by (cases "k < n") (simp_all add: resolve_def upt_conv_Cons)

lemma exec_Advance:
  assumes "exec e (Advance i) s = Some s'"
  shows "i < length (cmds s)" and "i < length (pcs s)" and "runnable i s"
    and "s' = s\<lparr>shared := snd (proceed e (cmds s ! i) (pcs s ! i) (shared s)),
          tasks := fold (react i)
            (made (shared s) (snd (proceed e (cmds s ! i) (pcs s ! i) (shared s)))) (tasks s),
          pcs := (pcs s)[i := fst (proceed e (cmds s ! i) (pcs s ! i) (shared s))]\<rparr>"
  using assms by (simp_all add: exec_def split_beta split: if_splits)

lemma serial_Advance:
  assumes inv: "serial e q0 s k" and ex: "exec e (Advance i) s = Some s'"
  shows "i = k" and "k < length (cmds s)"
    and "serial e q0 s' (if returned (pcs s' ! k) then Suc k else k)"
proof -
  let ?n = "length (cmds s)"
  let ?c = "cmds s ! k"
  let ?p = "pcs s ! k"
  let ?qk = "snd (in_turn e (take k (cmds s)) q0)"
  let ?p' = "fst (proceed e ?c ?p (shared s))"
  let ?q' = "snd (proceed e ?c ?p (shared s))"
  from exec_Advance [OF ex] have i: "i < ?n" and r: "runnable i s" by simp_all
  from serial_runnable [OF inv i r] show ik: "i = k" .
  from i ik show lt: "k < ?n" by simp
  from inv lt have len: "length (pcs s) = ?n" and t: "tasks s = [k..<?n]"
    and fin: "take k (pcs s) = map Returned (fst (in_turn e (take k (cmds s)) q0))"
    and waiting: "\<And>i. k < i \<Longrightarrow> i < ?n \<Longrightarrow> pcs s ! i = Queued"
    and a: "\<not> returned ?p"
    and c: "fst (finish e ?c (?p, shared s)) = Returned (fst (sequential e ?c ?qk))"
    and d: "fields (snd (finish e ?c (?p, shared s))) = fields (snd (sequential e ?c ?qk))"
    by (simp_all add: serial_def)
  have s': "s' = s\<lparr>shared := ?q',
      tasks := (if returned ?p' then [Suc k..<?n] else [k..<?n]),
      pcs := (pcs s)[k := ?p']\<rparr>"
    using exec_Advance(4) [OF ex] by (simp add: ik proceed_tasks [OF a] t resolve_upt)
  have cm: "cmds s' = cmds s" by (simp add: s')
  have pk: "pcs s' ! k = ?p'" using lt len by (simp add: s')
  have f: "finish e ?c (?p', ?q') = finish e ?c (?p, shared s)"
    using finish_proceed [OF a, of e ?c "shared s"] by simp
  show "serial e q0 s' (if returned (pcs s' ! k) then Suc k else k)"
  proof (cases "returned ?p'")
    case True
    then have "finish e ?c (?p', ?q') = (?p', ?q')" by (simp add: finish_fixed)
    with f c d have p': "?p' = Returned (fst (sequential e ?c ?qk))"
      and q': "fields ?q' = fields (snd (sequential e ?c ?qk))" by simp_all
    have tk: "take (Suc k) (cmds s) = take k (cmds s) @ [?c]"
      using lt by (simp add: take_Suc_conv_app_nth)
    have rs: "fst (in_turn e (take (Suc k) (cmds s)) q0)
        = fst (in_turn e (take k (cmds s)) q0) @ [fst (sequential e ?c ?qk)]"
      and qs: "snd (in_turn e (take (Suc k) (cmds s)) q0) = snd (sequential e ?c ?qk)"
      by (simp_all add: tk in_turn_snoc)
    have "take (Suc k) (pcs s') = take k (pcs s) @ [?p']"
      using lt len by (simp add: s' take_Suc_conv_app_nth)
    then have 3: "take (Suc k) (pcs s') = map Returned (fst (in_turn e (take (Suc k) (cmds s)) q0))"
      by (simp add: rs fin p')
    have 4: "\<forall>i. Suc k < i \<and> i < ?n \<longrightarrow> pcs s' ! i = Queued"
      using waiting by (simp add: s')
    have sh: "shared s' = ?q'" by (simp add: s')
    have "fields (shared s') = fields (snd (in_turn e (take (Suc k) (cmds s)) q0))"
      unfolding sh qs by (rule q')
    then have 5: "Suc k = ?n \<longrightarrow>
        fields (shared s') = fields (snd (in_turn e (take (Suc k) (cmds s)) q0))"
      by (rule_tac impI)
    have 6: "Suc k < ?n \<longrightarrow>
       \<not> returned (pcs s' ! Suc k)
       \<and> (pcs s' ! Suc k = Queued \<longrightarrow>
            fields (shared s') = fields (snd (in_turn e (take (Suc k) (cmds s)) q0)))
       \<and> fst (finish e (cmds s ! Suc k) (pcs s' ! Suc k, shared s'))
           = Returned (fst (sequential e (cmds s ! Suc k)
               (snd (in_turn e (take (Suc k) (cmds s)) q0))))
       \<and> fields (snd (finish e (cmds s ! Suc k) (pcs s' ! Suc k, shared s')))
           = fields (snd (sequential e (cmds s ! Suc k)
               (snd (in_turn e (take (Suc k) (cmds s)) q0))))"
    proof
      assume n: "Suc k < ?n"
      then have "pcs s ! Suc k = Queued" using waiting by simp
      then have "pcs s' ! Suc k = Queued" by (simp add: s')
      moreover have "shared s' = ?q'" by (simp add: s')
      ultimately show "\<not> returned (pcs s' ! Suc k)
       \<and> (pcs s' ! Suc k = Queued \<longrightarrow>
            fields (shared s') = fields (snd (in_turn e (take (Suc k) (cmds s)) q0)))
       \<and> fst (finish e (cmds s ! Suc k) (pcs s' ! Suc k, shared s'))
           = Returned (fst (sequential e (cmds s ! Suc k)
               (snd (in_turn e (take (Suc k) (cmds s)) q0))))
       \<and> fields (snd (finish e (cmds s ! Suc k) (pcs s' ! Suc k, shared s')))
           = fields (snd (sequential e (cmds s ! Suc k)
               (snd (in_turn e (take (Suc k) (cmds s)) q0))))"
        using finish_queued [OF q', of e "cmds s ! Suc k"] q' by (simp add: qs)
    qed
    have 1: "Suc k \<le> ?n" using lt by simp
    have 2: "length (pcs s') = ?n" using len by (simp add: s')
    have 7: "tasks s' = [Suc k..<?n]" using True by (simp add: s')
    have "serial e q0 s' (Suc k)"
      unfolding serial_def cm
      using 1 2 7 3 4 5 6 by blast
    with True pk show ?thesis by simp
  next
    case False
    have nq: "?p' \<noteq> Queued"
    proof
      assume "?p' = Queued"
      with proceed_rank [OF a, of e ?c "shared s"] rank_le_4 [of ?p] show False by simp
    qed
    have 3: "take k (pcs s') = map Returned (fst (in_turn e (take k (cmds s)) q0))"
      using fin by (simp add: s')
    have 4: "\<forall>i. k < i \<and> i < ?n \<longrightarrow> pcs s' ! i = Queued"
      using waiting by (simp add: s')
    have 5: "k = ?n \<longrightarrow> fields (shared s') = fields ?qk" using lt by simp
    have 6: "k < ?n \<longrightarrow>
       \<not> returned (pcs s' ! k)
       \<and> (pcs s' ! k = Queued \<longrightarrow> fields (shared s') = fields ?qk)
       \<and> fst (finish e ?c (pcs s' ! k, shared s')) = Returned (fst (sequential e ?c ?qk))
       \<and> fields (snd (finish e ?c (pcs s' ! k, shared s')))
           = fields (snd (sequential e ?c ?qk))"
      using False nq c d f pk by (simp add: s')
    have 1: "k \<le> ?n" using lt by simp
    have 2: "length (pcs s') = ?n" using len by (simp add: s')
    have 7: "tasks s' = [k..<?n]" using False by (simp add: s')
    have "serial e q0 s' k"
      unfolding serial_def cm
      using 1 2 7 3 4 5 6 by blast
    with False pk show ?thesis by simp
  qed
qed

lemma serial_exec:
  assumes "serial e q0 s k" and "exec e a s = Some s'"
  shows "\<exists>k'. serial e q0 s' k'"
proof (cases a)
  case (Issue c)
  with assms serial_Issue show ?thesis by blast
next
  case (Advance i)
  with assms serial_Advance(3) show ?thesis by blast
qed

lemma serial_run: "run e as (initial q0) = Some s \<Longrightarrow> \<exists>k. serial e q0 s k"
proof (induction as arbitrary: s rule: rev_induct)
  case Nil
  then show ?case using serial_initial [of e q0] by auto
next
  case (snoc a as)
  then obtain s1 where "run e as (initial q0) = Some s1" and "exec e a s1 = Some s"
    by (auto simp add: run_snoc split: option.splits)
  with snoc.IH serial_exec show ?case by blast
qed

lemma serial_finished:
  assumes inv: "serial e q0 s k"
  shows "finished s = k"
proof -
  from inv have k: "k \<le> length (cmds s)" and len: "length (pcs s) = length (cmds s)"
    and fin: "take k (pcs s) = map Returned (fst (in_turn e (take k (cmds s)) q0))"
    and waiting: "\<And>i. k < i \<Longrightarrow> i < length (cmds s) \<Longrightarrow> pcs s ! i = Queued"
    and holder: "k < length (cmds s) \<Longrightarrow> \<not> returned (pcs s ! k)"
    by (simp_all add: serial_def)
  have "filter returned (take k (pcs s)) = take k (pcs s)"
    unfolding fin by (simp add: filter_map o_def)
  moreover have "filter returned (drop k (pcs s)) = []"
  proof -
    have "\<not> returned (drop k (pcs s) ! j)" if "j < length (drop k (pcs s))" for j
    proof (cases j)
      case 0
      with that holder len show ?thesis by simp
    next
      case (Suc m)
      with that len have "pcs s ! (k + j) = Queued" by (intro waiting) simp_all
      with that show ?thesis by simp
    qed
    then show ?thesis by (auto simp add: filter_empty_conv in_set_conv_nth)
  qed
  ultimately have "filter returned (take k (pcs s) @ drop k (pcs s)) = take k (pcs s)"
    by (simp only: filter_append append_Nil2)
  then have "filter returned (pcs s) = take k (pcs s)" by simp
  with k len show ?thesis by (simp add: finished_def)
qed

lemma serial_facts:
  assumes inv: "serial e q0 s k"
  shows "length (pcs s) = length (cmds s)"
    and 2: "tasks s = [k..<length (cmds s)]"
    and 3: "take k (pcs s) = map Returned (fst (in_turn e (take k (cmds s)) q0))"
    and 4: "\<forall>i. k < i \<and> i < length (cmds s) \<longrightarrow> pcs s ! i = Queued"
    and 5: "k = length (cmds s) \<longrightarrow>
           fields (shared s) = fields (snd (in_turn e (take k (cmds s)) q0))"
    and 6: "k < length (cmds s) \<longrightarrow>
           (pcs s ! k = Queued \<longrightarrow>
                fields (shared s) = fields (snd (in_turn e (take k (cmds s)) q0)))
           \<and> fst (finish e (cmds s ! k) (pcs s ! k, shared s))
               = Returned (fst (sequential e (cmds s ! k) (snd (in_turn e (take k (cmds s)) q0))))
           \<and> fields (snd (finish e (cmds s ! k) (pcs s ! k, shared s)))
               = fields (snd (sequential e (cmds s ! k)
                   (snd (in_turn e (take k (cmds s)) q0))))"
    and le: "k \<le> length (cmds s)"
  using inv unfolding serial_def by simp_all

lemma serial_Advance_holder:
  assumes inv: "serial e q0 s k" and ex: "exec e (Advance i) s = Some s'"
  shows "i = finished s \<and> admitted i (tasks s)
           \<and> finished s' = (if returned (pcs s' ! i) then Suc i else i)
           \<and> tasks s' = (if returned (pcs s' ! i) then resolve (tasks s) else tasks s)"
proof -
  from serial_finished [OF inv] have k: "finished s = k" .
  note adv = serial_Advance [OF inv ex]
  from adv(1) have i: "i = k" .
  from adv(2) have lt: "k < length (cmds s)" .
  note inv' = adv(3)
  from inv have t: "tasks s = [k..<length (cmds s)]" by (simp add: serial_def)
  have cm: "cmds s' = cmds s" using exec_Advance(4) [OF ex] by simp
  have a: "admitted k (tasks s)" using lt by (simp add: t admitted_upt)
  have f': "finished s' = (if returned (pcs s' ! k) then Suc k else k)"
    by (rule serial_finished [OF inv'])
  have "tasks s' = [(if returned (pcs s' ! k) then Suc k else k)..<length (cmds s)]"
    using inv' unfolding serial_def cm by (rule_tac conjunct1 [OF conjunct2 [OF conjunct2]])
  then have t': "tasks s' = (if returned (pcs s' ! k) then resolve (tasks s) else tasks s)"
    by (simp add: t resolve_upt)
  show ?thesis unfolding i k using a f' t' by blast
qed

lemma serial_Issue_ticket:
  assumes inv: "serial e q0 s k" and ex: "exec e (Issue c) s = Some s'"
  shows "fields (shared s') = fields (shared s)
           \<and> tasks s' = queuing (length (cmds s)) (tasks s)
           \<and> pcs s' = pcs s @ [Queued] \<and> finished s' = finished s"
proof -
  from serial_finished [OF inv] have k: "finished s = k" .
    from serial_finished [OF serial_Issue [OF inv ex]] have "finished s' = k" .
    with ex show ?thesis
      by (auto simp add: exec_Issue k queuing_def)
qed

lemma serial_reachable:
  assumes "run e as (initial q0) = Some s"
  shows "length (pcs s) = length (cmds s)"
    and "tasks s = [finished s..<length (cmds s)]"
    and "take (finished s) (pcs s)
           = map Returned (fst (in_turn e (take (finished s) (cmds s)) q0))"
    and "\<forall>i. finished s < i \<and> i < length (cmds s) \<longrightarrow> pcs s ! i = Queued"
    and "finished s = length (cmds s) \<or> pcs s ! finished s = Queued \<longrightarrow>
           fields (shared s) = fields (snd (in_turn e (take (finished s) (cmds s)) q0))"
    and "finished s < length (cmds s) \<longrightarrow>
           runnable (finished s) s
           \<and> fst (finish e (cmds s ! finished s) (pcs s ! finished s, shared s))
               = Returned (fst (sequential e (cmds s ! finished s)
                   (snd (in_turn e (take (finished s) (cmds s)) q0))))
           \<and> fields (snd (finish e (cmds s ! finished s) (pcs s ! finished s, shared s)))
               = fields (snd (sequential e (cmds s ! finished s)
                   (snd (in_turn e (take (finished s) (cmds s)) q0))))"
    and "\<forall>i s'. exec e (Advance i) s = Some s' \<longrightarrow>
           i = finished s \<and> admitted i (tasks s)
           \<and> finished s' = (if returned (pcs s' ! i) then Suc i else i)
           \<and> tasks s' = (if returned (pcs s' ! i) then resolve (tasks s) else tasks s)"
    and "\<forall>c s'. exec e (Issue c) s = Some s' \<longrightarrow>
           fields (shared s') = fields (shared s)
           \<and> tasks s' = queuing (length (cmds s)) (tasks s)
           \<and> pcs s' = pcs s @ [Queued] \<and> finished s' = finished s"
proof -
  from serial_run [OF assms] obtain k where inv: "serial e q0 s k" by blast
  from serial_finished [OF inv] have k: "finished s = k" .
  note facts = serial_facts [OF inv]
  from facts(1) show "length (pcs s) = length (cmds s)" .
  from facts(2) show "tasks s = [finished s..<length (cmds s)]" unfolding k .
  from facts(3) show "take (finished s) (pcs s)
           = map Returned (fst (in_turn e (take (finished s) (cmds s)) q0))" unfolding k .
  from facts(4) show "\<forall>i. finished s < i \<and> i < length (cmds s) \<longrightarrow> pcs s ! i = Queued"
    unfolding k .
  have "k = length (cmds s) \<or> k < length (cmds s)" using facts(7) by arith
  with facts(5) facts(6)
  show "finished s = length (cmds s) \<or> pcs s ! finished s = Queued \<longrightarrow>
           fields (shared s) = fields (snd (in_turn e (take (finished s) (cmds s)) q0))"
    unfolding k by blast
  from facts(6) serial_progress [OF inv]
  show "finished s < length (cmds s) \<longrightarrow>
           runnable (finished s) s
           \<and> fst (finish e (cmds s ! finished s) (pcs s ! finished s, shared s))
               = Returned (fst (sequential e (cmds s ! finished s)
                   (snd (in_turn e (take (finished s) (cmds s)) q0))))
           \<and> fields (snd (finish e (cmds s ! finished s) (pcs s ! finished s, shared s)))
               = fields (snd (sequential e (cmds s ! finished s)
                   (snd (in_turn e (take (finished s) (cmds s)) q0))))"
    unfolding k by blast
  show "\<forall>i s'. exec e (Advance i) s = Some s' \<longrightarrow>
           i = finished s \<and> admitted i (tasks s)
           \<and> finished s' = (if returned (pcs s' ! i) then Suc i else i)
           \<and> tasks s' = (if returned (pcs s' ! i) then resolve (tasks s) else tasks s)"
    using serial_Advance_holder [OF inv] by blast
  show "\<forall>c s'. exec e (Issue c) s = Some s' \<longrightarrow>
           fields (shared s') = fields (shared s)
           \<and> tasks s' = queuing (length (cmds s)) (tasks s)
           \<and> pcs s' = pcs s @ [Queued] \<and> finished s' = finished s"
    using serial_Issue_ticket [OF inv] by blast
qed

lemmas schedule_defs = exec_def start_def proceed_def skip_admitted_def skip_resumed_def
  skip_returns_def skip_next_def returns_def added_def next_reply_def this_reply_def
  pause_admitted_def made_def react_def queuing_def resolve_def admitted_def runnable_def
  initial_def call_def unseen_def addRelatedSong_first_cases related_song Let_def
  last_song_queue_def example_queue_def related_env_def song_a_def song_x_def index_def

lemma sync_calls:
  "calls (snd (addToQueue song position q)) = calls q"
  "calls (snd (setRepeatMode mode q)) = calls q"
  "calls (snd (seek time q)) = calls q
     \<or> calls (snd (seek time q)) = calls q @ [Queues_playSong False]"
  by (simp_all add: addToQueue_def setRepeatMode_def Let_def seek_def play_def
      split: song_arg.split number.split argument.split)

lemma example_schedule_run:
  "run related_env example_schedule (initial last_song_queue)
     = Some \<lparr>shared = last_song_queue
                \<lparr>songs := [song_a, Song ''x'' (Some ''mix'') (Some ''bot'') (Some (Stream True None))],
                  paused := True, q_next := True,
                  calls := [TaskQueue_queuing, GetRelatedSong song_a, TaskQueue_queuing, Debug,
                            Voice_stop, TaskQueue_resolve, Voice_pause, TaskQueue_resolve]\<rparr>,
              tasks = [], cmds = [Skip, Pause],
              pcs = [Returned (Inr (Next (Some
                       (Song ''x'' (Some ''mix'') (Some ''bot'') (Some (Stream True None)))))),
                     Returned (Inr This)]\<rparr>"
  by (simp add: example_schedule_def schedule_defs)

lemma skip_waiting_run:
  "run related_env [Issue Skip, Advance 0] (initial last_song_queue) = Some skip_waiting"
  by (simp add: skip_waiting_def schedule_defs)

text \<open>
  Claim C1, as the code has it, for a task queue that admits its tickets first in, first
  out. Let any number of the commands \<open>pause\<close>, \<open>resume\<close>, \<open>skip\<close>,
  \<open>previous\<close>, \<open>shuffle\<close>, \<open>jump\<close> and \<open>stop\<close> be issued on one queue, at any
  moments, and let their pieces run in any order that JavaScript allows. Then in every
  state that is reached:
  \<^item> the tickets pending are those of the commands that have not returned, in the order
    in which the commands were issued;
  \<^item> the commands that have returned are the first ones issued, and each has returned
    what it returns when the commands run one after another in that order;
  \<^item> every command that has not returned, but the oldest of them, is still waiting for
    its ticket;
  \<^item> when no command is between its admission and its release, the fields of the queue
    are those that the commands returned so far leave when run one after another in the
    order of issue;
  \<^item> the oldest command that has not returned can run, and run alone from where it
    stands it returns what it returns, and leaves the fields it leaves, when it runs as
    the next command in that order;
  \<^item> a piece that can run belongs to the command whose ticket is the oldest; the ticket
    is released by the piece with which the command returns, whether it returns a value or
    an error, and by no other;
  \<^item> the call of a command requests a ticket and leaves the fields of the queue as they
    are.

  The synchronous methods \<open>addToQueue\<close>, \<open>setRepeatMode\<close> and \<open>seek\<close> make no
  call of the task queue: the first two call no collaborator at all, the third at most
  \<open>queues.playSong\<close>.
\<close>

theorem task_queue_serializes:
  "run e as (initial q0) = Some s \<Longrightarrow>
     length (pcs s) = length (cmds s)
     \<and> tasks s = [finished s..<length (cmds s)]
     \<and> take (finished s) (pcs s)
         = map Returned (fst (in_turn e (take (finished s) (cmds s)) q0))
     \<and> (\<forall>i. finished s < i \<and> i < length (cmds s) \<longrightarrow> pcs s ! i = Queued)
     \<and> (finished s = length (cmds s) \<or> pcs s ! finished s = Queued \<longrightarrow>
          fields (shared s) = fields (snd (in_turn e (take (finished s) (cmds s)) q0)))
     \<and> (finished s < length (cmds s) \<longrightarrow>
          runnable (finished s) s
          \<and> fst (finish e (cmds s ! finished s) (pcs s ! finished s, shared s))
              = Returned (fst (sequential e (cmds s ! finished s)
                  (snd (in_turn e (take (finished s) (cmds s)) q0))))
          \<and> fields (snd (finish e (cmds s ! finished s) (pcs s ! finished s, shared s)))
              = fields (snd (sequential e (cmds s ! finished s)
                  (snd (in_turn e (take (finished s) (cmds s)) q0)))))
     \<and> (\<forall>i s'. exec e (Advance i) s = Some s' \<longrightarrow>
          i = finished s \<and> admitted i (tasks s)
          \<and> finished s' = (if returned (pcs s' ! i) then Suc i else i)
          \<and> tasks s' = (if returned (pcs s' ! i) then resolve (tasks s) else tasks s))
     \<and> (\<forall>c s'. exec e (Issue c) s = Some s' \<longrightarrow>
          fields (shared s') = fields (shared s)
          \<and> tasks s' = queuing (length (cmds s)) (tasks s)
          \<and> pcs s' = pcs s @ [Queued] \<and> finished s' = finished s)
     \<and> calls (snd (addToQueue song position q)) = calls q
     \<and> calls (snd (setRepeatMode mode q)) = calls q
     \<and> (calls (snd (seek time q)) = calls q
         \<or> calls (snd (seek time q)) = calls q @ [Queues_playSong False])"
proof -
  assume r: "run e as (initial q0) = Some s"
  note h = serial_reachable [OF r]
  show ?thesis
    by (intro conjI)
      (rule h(1), rule h(2), rule h(3), rule h(4), rule h(5), rule h(6), rule h(7),
        rule h(8), rule sync_calls(1), rule sync_calls(2), rule sync_calls(3))
qed

theorem task_queue_serializes_witness:
  "map_option tasks (run related_env example_schedule (initial last_song_queue)) = Some []
   \<and> map_option pcs (run related_env example_schedule (initial last_song_queue))
       = Some (map Returned (fst (in_turn related_env [Skip, Pause] last_song_queue)))
   \<and> map_option (fields \<circ> shared) (run related_env example_schedule (initial last_song_queue))
       = Some (fields (snd (in_turn related_env [Skip, Pause] last_song_queue)))
   \<and> map_option (calls \<circ> shared) (run related_env example_schedule (initial last_song_queue))
       = Some [TaskQueue_queuing, GetRelatedSong song_a, TaskQueue_queuing, Debug,
               Voice_stop, TaskQueue_resolve, Voice_pause, TaskQueue_resolve]
   \<and> run related_env [Issue Skip, Advance 0] (initial last_song_queue) = Some skip_waiting
   \<and> finished skip_waiting = 0 \<and> runnable 0 skip_waiting
   \<and> exec related_env (Issue Pause) skip_waiting
       = Some (skip_waiting\<lparr>shared := call TaskQueue_queuing (shared skip_waiting),
                 tasks := [0, 1], cmds := [Skip, Pause],
                 pcs := [Related1 song_a [], Queued]\<rparr>)
   \<and> exec related_env (Advance 1)
         (skip_waiting\<lparr>shared := call TaskQueue_queuing (shared skip_waiting),
            tasks := [0, 1], cmds := [Skip, Pause], pcs := [Related1 song_a [], Queued]\<rparr>)
       = None"
proof -
  let ?s = "\<lparr>shared = last_song_queue
                \<lparr>songs := [song_a, Song ''x'' (Some ''mix'') (Some ''bot'') (Some (Stream True None))],
                  paused := True, q_next := True,
                  calls := [TaskQueue_queuing, GetRelatedSong song_a, TaskQueue_queuing, Debug,
                            Voice_stop, TaskQueue_resolve, Voice_pause, TaskQueue_resolve]\<rparr>,
              tasks = [], cmds = [Skip, Pause],
              pcs = [Returned (Inr (Next (Some
                       (Song ''x'' (Some ''mix'') (Some ''bot'') (Some (Stream True None)))))),
                     Returned (Inr This)]\<rparr>"
  note r = example_schedule_run
  have f: "finished ?s = 2" by (simp add: finished_def)
  note h = task_queue_serializes [OF r, where q = example_queue and song = "One song_x"
      and position = "Num 1" and mode = Undefined and time = "Num 0"]
  from h [THEN conjunct2, THEN conjunct2, THEN conjunct1]
  have p: "pcs ?s = map Returned (fst (in_turn related_env [Skip, Pause] last_song_queue))"
    unfolding f by simp
  from h [THEN conjunct2, THEN conjunct2, THEN conjunct2, THEN conjunct2, THEN conjunct1]
  have q: "fields (shared ?s) = fields (snd (in_turn related_env [Skip, Pause] last_song_queue))"
    unfolding f by simp
  have w: "finished skip_waiting = 0" "runnable 0 skip_waiting"
    by (simp_all add: finished_def skip_waiting_def runnable_def)
  note g = task_queue_serializes [OF skip_waiting_run, where q = example_queue
      and song = "One song_x" and position = "Num 1" and mode = Undefined and time = "Num 0"]
  have i: "exec related_env (Issue Pause) skip_waiting
       = Some (skip_waiting\<lparr>shared := call TaskQueue_queuing (shared skip_waiting),
                 tasks := [0, 1], cmds := [Skip, Pause],
                 pcs := [Related1 song_a [], Queued]\<rparr>)"
    by (simp add: exec_Issue skip_waiting_def)
  have a: "exec related_env (Advance 1)
         (skip_waiting\<lparr>shared := call TaskQueue_queuing (shared skip_waiting),
            tasks := [0, 1], cmds := [Skip, Pause], pcs := [Related1 song_a [], Queued]\<rparr>)
       = None"
    by (simp add: exec_def runnable_def admitted_def)
  have c1: "map_option tasks (run related_env example_schedule (initial last_song_queue)) = Some []"
    unfolding r by simp
  have c2: "map_option pcs (run related_env example_schedule (initial last_song_queue))
       = Some (map Returned (fst (in_turn related_env [Skip, Pause] last_song_queue)))"
    unfolding r using p by simp
  have c3: "map_option (fields \<circ> shared)
         (run related_env example_schedule (initial last_song_queue))
       = Some (fields (snd (in_turn related_env [Skip, Pause] last_song_queue)))"
    unfolding r using q by simp
  have c4: "map_option (calls \<circ> shared)
         (run related_env example_schedule (initial last_song_queue))
       = Some [TaskQueue_queuing, GetRelatedSong song_a, TaskQueue_queuing, Debug,
               Voice_stop, TaskQueue_resolve, Voice_pause, TaskQueue_resolve]"
    unfolding r by simp
  show ?thesis
    by (intro conjI)
      (rule c1, rule c2, rule c3, rule c4, rule skip_waiting_run, rule w(1), rule w(2),
        rule i, rule a)
qed

text \<open>
  \<open>setRepeatMode\<close> changes the repeat mode of a queue without any call of the task
  queue, also while \<open>skip\<close> holds the ticket and waits for the related songs.
\<close>

theorem setRepeatMode_without_task_queue_counterexample:
  "repeatMode example_queue = DISABLED
   \<and> repeatMode (snd (setRepeatMode Undefined example_queue)) = SONG
   \<and> calls (snd (setRepeatMode Undefined example_queue)) = []
   \<and> \<not> window example_queue (snd (setRepeatMode Undefined example_queue))
   \<and> run related_env [Issue Skip, Advance 0] (initial last_song_queue) = Some skip_waiting
   \<and> admitted 0 (tasks skip_waiting) \<and> \<not> returned (pcs skip_waiting ! 0)
   \<and> repeatMode (shared skip_waiting) = DISABLED
   \<and> repeatMode (snd (setRepeatMode Undefined (shared skip_waiting))) = SONG
   \<and> calls (snd (setRepeatMode Undefined (shared skip_waiting))) = calls (shared skip_waiting)"
proof -
  have "repeatMode example_queue = DISABLED
   \<and> repeatMode (snd (setRepeatMode Undefined example_queue)) = SONG
   \<and> calls (snd (setRepeatMode Undefined example_queue)) = []
   \<and> \<not> window example_queue (snd (setRepeatMode Undefined example_queue))"
    by (simp add: setRepeatMode_def successor_def remainder_def ToIntegerOrInfinity_def
        window_def Let_def example_queue_def DISABLED_def SONG_def)
  moreover have "admitted 0 (tasks skip_waiting) \<and> \<not> returned (pcs skip_waiting ! 0)
   \<and> repeatMode (shared skip_waiting) = DISABLED
   \<and> repeatMode (snd (setRepeatMode Undefined (shared skip_waiting))) = SONG
   \<and> calls (snd (setRepeatMode Undefined (shared skip_waiting))) = calls (shared skip_waiting)"
    by (simp add: setRepeatMode_def successor_def remainder_def ToIntegerOrInfinity_def
        Let_def skip_waiting_def last_song_queue_def example_queue_def DISABLED_def SONG_def
        admitted_def call_def)
  ultimately show ?thesis using skip_waiting_run by blast
qed

end
